theory Spec2Isabelle
  imports Main "HOL-Library.AList"
begin

section \<open>Python dictionaries and errors\<close>

text \<open>
  A Python \<^verbatim>\<open>dict\<close> keeps its keys in insertion order, and \<^verbatim>\<open>ssort/_graphs.py\<close>
  depends on that order (\<^verbatim>\<open>graph.nodes\<close> is iterated by the sort). A dictionary is
  therefore an association list:
  \<^item> \<^verbatim>\<open>d[k]\<close> is \<open>map_of d k\<close>, with \<open>None\<close> raising \<^verbatim>\<open>KeyError\<close>;
  \<^item> \<^verbatim>\<open>d[k] = v\<close> is \<open>AList.update k v d\<close>: an existing key keeps its position, a new
    key goes to the end;
  \<^item> \<^verbatim>\<open>d.pop(k, None)\<close> is \<open>AList.delete k d\<close>;
  \<^item> \<^verbatim>\<open>d.keys()\<close> is \<open>map fst d\<close>.
  The inner dictionaries of a graph are created by \<^verbatim>\<open>add_node\<close> only, one fresh
  \<^verbatim>\<open>{}\<close> per index and node, and no method hands one out, so no two entries ever share
  a dictionary object and the indices can be nested values. For the sort this is proved
  below: the sort on a store of objects, where dictionaries have addresses, returns
  what the sort on nested values returns (\<open>sort_of_graph_object\<close>,
  \<open>sort_of_list_and_graph_object\<close>).
\<close>

datatype error = KeyError | TypeError | AssertionError | IndexError | StopIteration

type_synonym ('k, 'v) dict = "('k \<times> 'v) list"

definition is_dict :: "('k, 'v) dict \<Rightarrow> bool" where
  "is_dict d \<longleftrightarrow> distinct (map fst d)"

text \<open>The set of keys of a dictionary (\<^verbatim>\<open>k in d\<close> is \<open>k \<in> keys d\<close>).\<close>

definition keys :: "('k, 'v) dict \<Rightarrow> 'k set" where
  "keys d = fst ` set d"

text \<open>\<^verbatim>\<open>d.setdefault(k, v)\<close>, for its effect on \<open>d\<close>.\<close>

definition setdefault :: "'k \<Rightarrow> 'v \<Rightarrow> ('k, 'v) dict \<Rightarrow> ('k, 'v) dict" where
  "setdefault k v d = (case map_of d k of None \<Rightarrow> d @ [(k, v)] | Some _ \<Rightarrow> d)"

text \<open>\<^verbatim>\<open>d.update(other)\<close>: the items of \<open>other\<close> are assigned in their order.\<close>

definition dict_update :: "('k, 'v) dict \<Rightarrow> ('k, 'v) dict \<Rightarrow> ('k, 'v) dict" where
  "dict_update d other = fold (\<lambda>(k, v). AList.update k v) other d"

section \<open>The class Graph\<close>

text \<open>
  \<^verbatim>\<open>_out_edges\<close> maps an origin to the dictionary of its destinations, \<^verbatim>\<open>_in_edges\<close> a
  destination to the dictionary of its origins; both carry the edge label.
\<close>

type_synonym ('n, 'e) index = "('n, ('n, 'e) dict) dict"

record ('n, 'e) graph =
  out_edges :: "('n, 'e) index"
  in_edges :: "('n, 'e) index"

text \<open>
  A method that mutates the graph and may raise returns \<open>Inr g'\<close> when it returns
  normally with the graph in state \<open>g'\<close>, and \<open>Inl (e, g')\<close> when it raises \<open>e\<close>, leaving
  the graph in state \<open>g'\<close>.
\<close>

type_synonym ('n, 'e) outcome = "(error \<times> ('n, 'e) graph) + ('n, 'e) graph"

definition state_after :: "('n, 'e) outcome \<Rightarrow> ('n, 'e) graph" where
  "state_after r = (case r of Inl (e, g) \<Rightarrow> g | Inr g \<Rightarrow> g)"

definition Graph :: "('n, 'e) graph" where
  "Graph = \<lparr>out_edges = [], in_edges = []\<rparr>"

definition nodes :: "('n, 'e) graph \<Rightarrow> 'n list" where
  "nodes g = map fst (out_edges g)"

definition successors :: "('n, 'e) graph \<Rightarrow> 'n \<Rightarrow> error + 'n list" where
  "successors g node =
     (case map_of (out_edges g) node of None \<Rightarrow> Inl KeyError | Some d \<Rightarrow> Inr (map fst d))"

definition predecessors :: "('n, 'e) graph \<Rightarrow> 'n \<Rightarrow> error + 'n list" where
  "predecessors g node =
     (case map_of (in_edges g) node of None \<Rightarrow> Inl KeyError | Some d \<Rightarrow> Inr (map fst d))"

definition has_edge :: "('n, 'e) graph \<Rightarrow> 'n \<Rightarrow> 'n \<Rightarrow> bool" where
  "has_edge g origin destination =
     (case map_of (out_edges g) origin of
        None \<Rightarrow> False
      | Some out \<Rightarrow> destination \<in> keys out)"

definition edge :: "('n, 'e) graph \<Rightarrow> 'n \<Rightarrow> 'n \<Rightarrow> error + 'e" where
  "edge g origin destination =
     (case map_of (out_edges g) origin of
        None \<Rightarrow> Inl KeyError
      | Some out \<Rightarrow> (case map_of out destination of None \<Rightarrow> Inl KeyError | Some e \<Rightarrow> Inr e))"

definition add_node :: "('n, 'e) graph \<Rightarrow> 'n \<Rightarrow> ('n, 'e) graph" where
  "add_node g node =
     \<lparr>out_edges = setdefault node [] (out_edges g),
      in_edges = setdefault node [] (in_edges g)\<rparr>"

text \<open>Both dictionaries are looked up before either is assigned.\<close>

definition add_edge :: "('n, 'e) graph \<Rightarrow> 'n \<Rightarrow> 'n \<Rightarrow> 'e \<Rightarrow> ('n, 'e) outcome" where
  "add_edge g origin destination e =
     (case map_of (out_edges g) origin of
        None \<Rightarrow> Inl (KeyError, g)
      | Some out \<Rightarrow>
          (case map_of (in_edges g) destination of
             None \<Rightarrow> Inl (KeyError, g)
           | Some inc \<Rightarrow>
               Inr \<lparr>out_edges = AList.update origin (AList.update destination e out) (out_edges g),
                    in_edges = AList.update destination (AList.update origin e inc) (in_edges g)\<rparr>))"

text \<open>
  \<^verbatim>\<open>for k in ks: index[k].pop(node, None)\<close>, the two loops of \<^verbatim>\<open>remove_node\<close>. The
  keys \<open>ks\<close> come from a copy of a dictionary, so the loop runs over a fixed list.
\<close>

fun discard :: "'n \<Rightarrow> 'n list \<Rightarrow> ('n, 'e) index \<Rightarrow> (error \<times> ('n, 'e) index) + ('n, 'e) index" where
  "discard node [] idx = Inr idx"
| "discard node (k # ks) idx =
     (case map_of idx k of
        None \<Rightarrow> Inl (KeyError, idx)
      | Some d \<Rightarrow> discard node ks (AList.update k (AList.delete node d) idx))"

text \<open>\<^verbatim>\<open>d.pop(k)\<close> with no default, for its effect on \<open>d\<close>.\<close>

definition pop :: "'k \<Rightarrow> ('k, 'v) dict \<Rightarrow> error + ('k, 'v) dict" where
  "pop k d = (case map_of d k of None \<Rightarrow> Inl KeyError | Some _ \<Rightarrow> Inr (AList.delete k d))"

definition remove_node :: "('n, 'e) graph \<Rightarrow> 'n \<Rightarrow> ('n, 'e) outcome" where
  "remove_node g node =
     (case map_of (out_edges g) node of
        None \<Rightarrow> Inl (KeyError, g)
      | Some out \<Rightarrow>
     (case map_of (in_edges g) node of
        None \<Rightarrow> Inl (KeyError, g)
      | Some inc \<Rightarrow>
     (case discard node (map fst out) (in_edges g) of
        Inl (e, ins) \<Rightarrow> Inl (e, g\<lparr>in_edges := ins\<rparr>)
      | Inr ins \<Rightarrow>
     (case discard node (map fst inc) (out_edges g) of
        Inl (e, outs) \<Rightarrow> Inl (e, \<lparr>out_edges = outs, in_edges = ins\<rparr>)
      | Inr outs \<Rightarrow>
     (case pop node outs of
        Inl e \<Rightarrow> Inl (e, \<lparr>out_edges = outs, in_edges = ins\<rparr>)
      | Inr outs' \<Rightarrow>
     (case pop node ins of
        Inl e \<Rightarrow> Inl (e, \<lparr>out_edges = outs', in_edges = ins\<rparr>)
      | Inr ins' \<Rightarrow> Inr \<lparr>out_edges = outs', in_edges = ins'\<rparr>))))))"

definition remove_edge :: "('n, 'e) graph \<Rightarrow> 'n \<Rightarrow> 'n \<Rightarrow> ('n, 'e) outcome" where
  "remove_edge g origin destination =
     (case map_of (out_edges g) origin of
        None \<Rightarrow> Inl (KeyError, g)
      | Some out \<Rightarrow>
          (case map_of (in_edges g) destination of
             None \<Rightarrow> Inl (KeyError, g)
           | Some inc \<Rightarrow>
               Inr \<lparr>out_edges = AList.update origin (AList.delete destination out) (out_edges g),
                    in_edges = AList.update destination (AList.delete origin inc) (in_edges g)\<rparr>))"

text \<open>
  The loop of \<^verbatim>\<open>update\<close> over \<^verbatim>\<open>other.nodes\<close>. Each subscript is a lookup that can
  raise; the receiver of \<^verbatim>\<open>.update\<close> is evaluated before its argument.
\<close>

fun update_from :: "('n, 'e) graph \<Rightarrow> ('n, 'e) graph \<Rightarrow> 'n list \<Rightarrow> ('n, 'e) outcome" where
  "update_from self other [] = Inr self"
| "update_from self other (node # ns) =
     (let s1 = add_node self node in
      case map_of (out_edges s1) node of
        None \<Rightarrow> Inl (KeyError, s1)
      | Some so \<Rightarrow>
     (case map_of (out_edges other) node of
        None \<Rightarrow> Inl (KeyError, s1)
      | Some oo \<Rightarrow>
     (let s2 = s1\<lparr>out_edges := AList.update node (dict_update so oo) (out_edges s1)\<rparr> in
      case map_of (in_edges s2) node of
        None \<Rightarrow> Inl (KeyError, s2)
      | Some si \<Rightarrow>
     (case map_of (in_edges other) node of
        None \<Rightarrow> Inl (KeyError, s2)
      | Some oi \<Rightarrow>
          update_from (s2\<lparr>in_edges := AList.update node (dict_update si oi) (in_edges s2)\<rparr>)
            other ns))))"

definition update :: "('n, 'e) graph \<Rightarrow> ('n, 'e) graph \<Rightarrow> ('n, 'e) outcome" where
  "update self other = update_from self other (nodes other)"

text \<open>
  \<^verbatim>\<open>copy\<close> builds a new graph and returns it; \<^verbatim>\<open>self\<close> is only read. \<open>Inl\<close> is the
  error raised by \<^verbatim>\<open>update\<close>, in which case no copy is returned.
\<close>

definition copy :: "('n, 'e) graph \<Rightarrow> error + ('n, 'e) graph" where
  "copy self = (case update Graph self of Inl (e, _) \<Rightarrow> Inl e | Inr c \<Rightarrow> Inr c)"

section \<open>Searching for a cycle\<close>

text \<open>
  \<^verbatim>\<open>set(graph.successors(node))\<close> is a Python set, and \<^verbatim>\<open>top_dependencies.pop()\<close> removes
  an arbitrary element of it. The set is the list of its elements, and the choice is a
  parameter \<open>draw\<close> of the search: from the list \<open>xs\<close> the element at position
  \<open>draw xs mod length xs\<close> is taken. Every \<open>draw\<close> is a possible behaviour of \<^verbatim>\<open>pop\<close>, and
  what is proved below holds for all of them.
\<close>

definition set_pop :: "('n list \<Rightarrow> nat) \<Rightarrow> 'n list \<Rightarrow> error + ('n \<times> 'n list)" where
  "set_pop draw xs =
     (if xs = [] then Inl KeyError
      else let i = draw xs mod length xs in Inr (xs ! i, take i xs @ drop (Suc i) xs))"

text \<open>
  A frame of the stack is \<^verbatim>\<open>(node, dependencies still to visit)\<close>. The stack is the
  Python list: its first element is the bottom, \<^verbatim>\<open>stack[-1]\<close> is \<open>last stack\<close> and
  \<^verbatim>\<open>stack.pop()\<close> leaves \<open>butlast stack\<close>.
\<close>

type_synonym 'n frame = "'n \<times> 'n list"

text \<open>
  The inner loop that builds the cycle:
  \<^verbatim>\<open>while stack[-1][0] != dependency: cycle.append(stack[-1][0]); stack.pop()\<close>.
\<close>

function unwind :: "'n \<Rightarrow> 'n frame list \<Rightarrow> 'n list \<Rightarrow> error + 'n list" where
  "unwind dependency stack cycle =
     (if stack = [] then Inl IndexError
      else if fst (last stack) \<noteq> dependency
        then unwind dependency (butlast stack) (cycle @ [fst (last stack)])
      else Inr cycle)"
  by pat_completeness auto
termination
  by (relation "measure (\<lambda>(dependency, stack, cycle). length stack)") auto

declare unwind.simps [simp del]

text \<open>What the \<^verbatim>\<open>while stack:\<close> loop ends with: a cycle, or the new set \<open>processed\<close>.\<close>

datatype 'n search = Cycle "'n list" | Exhausted "'n set"

definition unvisited :: "('n, 'e) graph \<Rightarrow> 'n set \<Rightarrow> 'n set \<Rightarrow> nat" where
  "unvisited g in_stack processed = card (set (nodes g) - processed - in_stack)"

definition pending_work :: "'n frame list \<Rightarrow> nat" where
  "pending_work stack = sum_list (map (\<lambda>(node, dependencies). Suc (length dependencies)) stack)"

lemma set_pop_shorter:
  assumes "set_pop draw xs = Inr (x, rest)"
  shows "length rest < length xs"
proof -
  from assms have ne: "xs \<noteq> []" by (auto simp: set_pop_def split: if_splits)
  define i where "i = draw xs mod length xs"
  from ne have i: "i < length xs" by (simp add: i_def)
  from assms ne have "rest = take i xs @ drop (Suc i) xs"
    by (simp add: set_pop_def Let_def i_def)
  with i show ?thesis by simp
qed

lemma pending_work_snoc:
  "pending_work (stack @ [(n, ds)]) = pending_work stack + Suc (length ds)"
  by (simp add: pending_work_def)

lemma pending_work_butlast:
  "stack \<noteq> [] \<Longrightarrow> (n, ds) = last stack \<Longrightarrow>
   pending_work stack = pending_work (butlast stack) + Suc (length ds)"
  using pending_work_snoc [of "butlast stack" n ds] by (metis append_butlast_last_id)

lemma pending_work_pop:
  "stack \<noteq> [] \<Longrightarrow> (n, ds) = last stack \<Longrightarrow> pending_work (butlast stack) < pending_work stack"
  by (simp add: pending_work_butlast)

lemma pending_work_draw:
  "stack \<noteq> [] \<Longrightarrow> (n, ds) = last stack \<Longrightarrow> length rest < length ds \<Longrightarrow>
   pending_work (butlast stack @ [(n, rest)]) < pending_work stack"
  by (simp add: pending_work_butlast [of stack n ds] pending_work_snoc)

lemma unvisited_pop:
  assumes "n \<in> in_stack"
  shows "unvisited g (in_stack - {n}) (insert n processed) = unvisited g in_stack processed"
proof -
  from assms have "set (nodes g) - insert n processed - (in_stack - {n})
      = set (nodes g) - processed - in_stack" by auto
  then show ?thesis by (simp add: unvisited_def)
qed

lemma unvisited_push:
  assumes "successors g d = Inr ss" "d \<notin> in_stack" "d \<notin> processed"
  shows "unvisited g (insert d in_stack) processed < unvisited g in_stack processed"
proof -
  from assms(1) have "d \<in> set (nodes g)"
    by (auto simp: successors_def nodes_def split: option.splits dest: map_of_SomeD
        intro: rev_image_eqI)
  with assms(2,3) have d: "d \<in> set (nodes g) - processed - in_stack" by simp
  have "set (nodes g) - processed - insert d in_stack = (set (nodes g) - processed - in_stack) - {d}"
    by auto
  moreover from d have "card ((set (nodes g) - processed - in_stack) - {d})
      < card (set (nodes g) - processed - in_stack)"
    by (intro card_Diff1_less) simp_all
  ultimately show ?thesis
    by (simp only: unvisited_def)
qed

text \<open>
  The \<^verbatim>\<open>while stack:\<close> loop of \<^verbatim>\<open>_find_cycle\<close>, started from any stack.
  \<^verbatim>\<open>in_stack.remove\<close> raises \<^verbatim>\<open>KeyError\<close> on a missing element, and the set of the top
  frame is changed in place by \<^verbatim>\<open>pop\<close>.
\<close>

function dfs ::
  "('n list \<Rightarrow> nat) \<Rightarrow> ('n, 'e) graph \<Rightarrow> 'n frame list \<Rightarrow> 'n set \<Rightarrow> 'n set \<Rightarrow> error + 'n search"
where
  "dfs draw g stack in_stack processed =
     (if stack = [] then Inr (Exhausted processed)
      else case last stack of (top_node, top_dependencies) \<Rightarrow>
        if top_dependencies = [] then
          (if top_node \<in> in_stack
           then dfs draw g (butlast stack) (in_stack - {top_node}) (insert top_node processed)
           else Inl KeyError)
        else
          (case set_pop draw top_dependencies of
             Inl e \<Rightarrow> Inl e
           | Inr (dependency, rest) \<Rightarrow>
               if dependency \<in> in_stack then
                 (case unwind dependency (butlast stack @ [(top_node, rest)]) [dependency] of
                    Inl e \<Rightarrow> Inl e
                  | Inr cycle \<Rightarrow> Inr (Cycle cycle))
               else if dependency \<notin> processed then
                 (case successors g dependency of
                    Inl e \<Rightarrow> Inl e
                  | Inr ss \<Rightarrow>
                      dfs draw g (butlast stack @ [(top_node, rest), (dependency, ss)])
                        (insert dependency in_stack) processed)
               else dfs draw g (butlast stack @ [(top_node, rest)]) in_stack processed))"
  by pat_completeness auto
termination
proof (relation "measures
    [\<lambda>(draw, g, stack, in_stack, processed). unvisited g in_stack processed,
     \<lambda>(draw, g, stack, in_stack, processed). pending_work stack]", goal_cases)
  case 1
  show ?case by simp
next
  case 2
  then show ?case
    by (simp add: unvisited_pop pending_work_pop)
next
  case 3
  then show ?case
    by (simp add: unvisited_push)
next
  case 4
  then show ?case
    by (auto intro!: pending_work_draw dest: set_pop_shorter)
qed

declare dfs.simps [simp del]

text \<open>The \<^verbatim>\<open>for node in graph.nodes\<close> loop of \<^verbatim>\<open>_find_cycle\<close>.\<close>

fun find_from ::
  "('n list \<Rightarrow> nat) \<Rightarrow> ('n, 'e) graph \<Rightarrow> 'n list \<Rightarrow> 'n set \<Rightarrow> error + 'n list option"
where
  "find_from draw g [] processed = Inr None"
| "find_from draw g (node # ns) processed =
     (if node \<in> processed then find_from draw g ns processed
      else case successors g node of
        Inl e \<Rightarrow> Inl e
      | Inr ss \<Rightarrow>
          (case dfs draw g [(node, ss)] {node} processed of
             Inl e \<Rightarrow> Inl e
           | Inr (Cycle cycle) \<Rightarrow> Inr (Some cycle)
           | Inr (Exhausted processed') \<Rightarrow> find_from draw g ns processed'))"

definition find_cycle :: "('n list \<Rightarrow> nat) \<Rightarrow> ('n, 'e) graph \<Rightarrow> error + 'n list option" where
  "find_cycle draw g = find_from draw g (nodes g) {}"

section \<open>Replacing cycles\<close>

text \<open>
  \<^verbatim>\<open>_remove_self_references\<close>: \<^verbatim>\<open>for node in graph.nodes: graph.remove_edge(node, node)\<close>.
  \<^verbatim>\<open>remove_edge\<close> changes inner dictionaries only, so the loop runs over the nodes the
  graph has at the start.
\<close>

fun remove_loops :: "('n, 'e) graph \<Rightarrow> 'n list \<Rightarrow> ('n, 'e) outcome" where
  "remove_loops g [] = Inr g"
| "remove_loops g (node # ns) =
     (case remove_edge g node node of Inl r \<Rightarrow> Inl r | Inr g' \<Rightarrow> remove_loops g' ns)"

definition remove_self_references :: "('n, 'e) graph \<Rightarrow> ('n, 'e) outcome" where
  "remove_self_references g = remove_loops g (nodes g)"

text \<open>\<^verbatim>\<open>for dependency in cycle: graph.remove_edge(node, dependency)\<close>\<close>

fun remove_edges_from :: "('n, 'e) graph \<Rightarrow> 'n \<Rightarrow> 'n list \<Rightarrow> ('n, 'e) outcome" where
  "remove_edges_from g node [] = Inr g"
| "remove_edges_from g node (dependency # ds) =
     (case remove_edge g node dependency of
        Inl r \<Rightarrow> Inl r
      | Inr g' \<Rightarrow> remove_edges_from g' node ds)"

text \<open>\<^verbatim>\<open>for node in cycle: for dependency in cycle: ...\<close>, the outer loop over \<open>ns\<close>.\<close>

fun remove_edges_among :: "('n, 'e) graph \<Rightarrow> 'n list \<Rightarrow> 'n list \<Rightarrow> ('n, 'e) outcome" where
  "remove_edges_among g [] cycle = Inr g"
| "remove_edges_among g (node # ns) cycle =
     (case remove_edges_from g node cycle of
        Inl r \<Rightarrow> Inl r
      | Inr g' \<Rightarrow> remove_edges_among g' ns cycle)"

text \<open>\<^verbatim>\<open>for node in nodes: graph.add_edge(node, prev, True); prev = node\<close>\<close>

fun add_links :: "('n, bool) graph \<Rightarrow> 'n \<Rightarrow> 'n list \<Rightarrow> ('n, bool) outcome" where
  "add_links g prev [] = Inr g"
| "add_links g prev (node # ns) =
     (case add_edge g node prev True of Inl r \<Rightarrow> Inl r | Inr g' \<Rightarrow> add_links g' node ns)"

text \<open>
  The body of the \<^verbatim>\<open>while True\<close> loop after the cycle is found. \<^verbatim>\<open>sorted\<close> is stable, as
  \<open>sort_key\<close> is; \<^verbatim>\<open>next\<close> on an exhausted iterator raises \<^verbatim>\<open>StopIteration\<close>.
\<close>

definition replace_cycle :: "('n \<Rightarrow> int) \<Rightarrow> ('n, bool) graph \<Rightarrow> 'n list \<Rightarrow> ('n, bool) outcome" where
  "replace_cycle key g cycle =
     (case remove_edges_among g cycle cycle of
        Inl r \<Rightarrow> Inl r
      | Inr g' \<Rightarrow>
          (case sort_key key cycle of
             [] \<Rightarrow> Inl (StopIteration, g')
           | prev # ns \<Rightarrow> add_links g' prev ns))"

text \<open>
  The \<^verbatim>\<open>while True\<close> loop. Nothing in its text bounds it, so the result is an option:
  \<open>None\<close> is a loop that never ends. \<^verbatim>\<open>if not cycle: break\<close> leaves the loop for
  \<^verbatim>\<open>None\<close> and for the empty list.
\<close>

partial_function (option) replace_loop ::
  "('n list \<Rightarrow> nat) \<Rightarrow> ('n \<Rightarrow> int) \<Rightarrow> ('n, bool) graph \<Rightarrow> ('n, bool) outcome option"
where
  "replace_loop draw key g =
     (case find_cycle draw g of
        Inl e \<Rightarrow> Some (Inl (e, g))
      | Inr None \<Rightarrow> Some (Inr g)
      | Inr (Some cycle) \<Rightarrow>
          if cycle = [] then Some (Inr g)
          else (case replace_cycle key g cycle of
                  Inl r \<Rightarrow> Some (Inl r)
                | Inr g' \<Rightarrow> replace_loop draw key g'))"

declare replace_loop.simps [code]

definition replace_cycles ::
  "('n list \<Rightarrow> nat) \<Rightarrow> ('n \<Rightarrow> int) \<Rightarrow> ('n, bool) graph \<Rightarrow> ('n, bool) outcome option"
where
  "replace_cycles draw key g =
     (case remove_self_references g of
        Inl r \<Rightarrow> Some (Inl r)
      | Inr g' \<Rightarrow> replace_loop draw key g')"

section \<open>Topological sorting\<close>

text \<open>
  \<^verbatim>\<open>is_topologically_sorted\<close>: a node is added to \<^verbatim>\<open>visited\<close> before its successors
  are looked at, and the first successor that has not been visited ends the check.
\<close>

fun sorted_from :: "('n, 'e) graph \<Rightarrow> 'n list \<Rightarrow> 'n set \<Rightarrow> error + bool" where
  "sorted_from g [] visited = Inr True"
| "sorted_from g (node # ns) visited =
     (case successors g node of
        Inl e \<Rightarrow> Inl e
      | Inr dependencies \<Rightarrow>
          if list_all (\<lambda>dependency. dependency \<in> insert node visited) dependencies
          then sorted_from g ns (insert node visited)
          else Inr False)"

definition is_topologically_sorted :: "'n list \<Rightarrow> ('n, 'e) graph \<Rightarrow> error + bool" where
  "is_topologically_sorted ns g = sorted_from g ns {}"

text \<open>
  The first argument of \<^verbatim>\<open>topological_sort\<close> is a graph or a list; \<^verbatim>\<open>graph=None\<close> is
  \<open>None\<close>. \<open>arguments\<close> is the type check at the head of the function: it gives the
  graph to sort and the nodes asked for.
\<close>

datatype ('n, 'e) target = GraphTarget "('n, 'e) graph" | ListTarget "'n list"

definition arguments ::
  "('n, 'e) target \<Rightarrow> ('n, 'e) graph option \<Rightarrow> error + (('n, 'e) graph \<times> 'n list)"
where
  "arguments target graph =
     (case graph of
        None \<Rightarrow>
          (case target of
             GraphTarget t \<Rightarrow> Inr (t, nodes t)
           | ListTarget _ \<Rightarrow> Inl TypeError)
      | Some g \<Rightarrow>
          (case target of
             ListTarget ns \<Rightarrow> Inr (g, ns)
           | GraphTarget _ \<Rightarrow> Inl TypeError))"

text \<open>\<^verbatim>\<open>[node for node in graph.nodes if not graph.predecessors(node)]\<close>\<close>

fun ready :: "('n, 'e) graph \<Rightarrow> 'n list \<Rightarrow> error + 'n list" where
  "ready g [] = Inr []"
| "ready g (node # ns) =
     (case predecessors g node of
        Inl e \<Rightarrow> Inl e
      | Inr ps \<Rightarrow>
          (case ready g ns of
             Inl e \<Rightarrow> Inl e
           | Inr pending \<Rightarrow> Inr (if ps = [] then node # pending else pending)))"

text \<open>
  \<^verbatim>\<open>dependencies = remaining.successors(node)\<close> is a view of the inner dictionary of
  \<open>node\<close>, and it is iterated after \<^verbatim>\<open>remaining.remove_node(node)\<close>. That call takes the
  dictionary out of the index and leaves its entries alone, but for one: when \<open>node\<close> is
  among its own predecessors, the second loop of \<^verbatim>\<open>remove_node\<close> pops \<open>node\<close> from it.
  \<open>view_after_remove g node ss\<close> is what the view \<open>ss\<close>, taken in state \<open>g\<close>, shows after
  the call.
\<close>

definition view_after_remove :: "('n, 'e) graph \<Rightarrow> 'n \<Rightarrow> 'n list \<Rightarrow> 'n list" where
  "view_after_remove g node ss =
     (case map_of (in_edges g) node of
        None \<Rightarrow> ss
      | Some inc \<Rightarrow> if node \<in> keys inc then removeAll node ss else ss)"

text \<open>
  \<^verbatim>\<open>for dependency in dependencies: if not remaining.predecessors(dependency):
  if dependency not in pending: pending.append(dependency)\<close>
\<close>

fun enqueue :: "('n, 'e) graph \<Rightarrow> 'n list \<Rightarrow> 'n list \<Rightarrow> error + 'n list" where
  "enqueue g [] pending = Inr pending"
| "enqueue g (dependency # ds) pending =
     (case predecessors g dependency of
        Inl e \<Rightarrow> Inl e
      | Inr ps \<Rightarrow>
          enqueue g ds
            (if ps = [] \<and> dependency \<notin> set pending then pending @ [dependency] else pending))"

lemma length_update_present:
  "map_of al k = Some v \<Longrightarrow> length (AList.update k v' al) = length al"
  by (induction al) (auto split: if_splits)

lemma length_discard: "discard node ks idx = Inr idx' \<Longrightarrow> length idx' = length idx"
proof (induction ks arbitrary: idx)
  case Nil
  then show ?case by simp
next
  case (Cons k ks)
  then obtain d where d: "map_of idx k = Some d"
    and rest: "discard node ks (AList.update k (AList.delete node d) idx) = Inr idx'"
    by (auto split: option.splits)
  from Cons.IH [OF rest] length_update_present [OF d] show ?case by simp
qed

lemma length_delete_present: "map_of al k = Some v \<Longrightarrow> length (AList.delete k al) < length al"
proof (induction al)
  case Nil
  then show ?case by simp
next
  case (Cons p al)
  then show ?case
    using length_delete_le [of k al] by (auto simp: less_Suc_eq_le split: if_splits)
qed

lemma remove_node_shrinks:
  assumes "remove_node g node = Inr g'"
  shows "length (out_edges g') < length (out_edges g)"
proof -
  from assms obtain out inc ins outs outs' ins' where
    "map_of (out_edges g) node = Some out" and "map_of (in_edges g) node = Some inc"
    and "discard node (map fst out) (in_edges g) = Inr ins"
    and outs: "discard node (map fst inc) (out_edges g) = Inr outs"
    and outs': "pop node outs = Inr outs'" and "pop node ins = Inr ins'"
    and "g' = \<lparr>out_edges = outs', in_edges = ins'\<rparr>"
    by (auto simp: remove_node_def split: option.splits sum.splits)
  then have g': "out_edges g' = outs'" by simp
  from outs' obtain v where "map_of outs node = Some v" "outs' = AList.delete node outs"
    by (auto simp: pop_def split: option.splits)
  with length_delete_present [of outs node v] length_discard [OF outs] g' show ?thesis by simp
qed

text \<open>
  The \<^verbatim>\<open>while pending:\<close> loop, on the private copy \<open>remaining\<close>. \<^verbatim>\<open>pending.pop()\<close> takes the
  last element of the sorted list.
\<close>

function sort_loop ::
  "('n \<Rightarrow> int) \<Rightarrow> ('n, 'e) graph \<Rightarrow> 'n list \<Rightarrow> 'n list \<Rightarrow> error + (('n, 'e) graph \<times> 'n list)"
where
  "sort_loop key remaining pending result =
     (if pending = [] then Inr (remaining, result)
      else
        let sorted_pending = sort_key key pending;
            node = last sorted_pending
        in case successors remaining node of
             Inl e \<Rightarrow> Inl e
           | Inr dependencies \<Rightarrow>
               (case remove_node remaining node of
                  Inl (e, _) \<Rightarrow> Inl e
                | Inr remaining' \<Rightarrow>
                    (case enqueue remaining' (view_after_remove remaining node dependencies)
                            (butlast sorted_pending) of
                       Inl e \<Rightarrow> Inl e
                     | Inr pending' \<Rightarrow> sort_loop key remaining' pending' (result @ [node]))))"
  by pat_completeness auto
termination
  by (relation "measure (\<lambda>(key, remaining, pending, result). length (out_edges remaining))")
    (auto dest: remove_node_shrinks)

declare sort_loop.simps [simp del]

text \<open>
  \<^verbatim>\<open>sort_key_from_iter\<close> is imported from \<^verbatim>\<open>ssort/_utils.py\<close>, which is not among the
  sources, so it is a parameter of the sort: from the reference sequence it makes the
  rank function. The two \<^verbatim>\<open>assert\<close> statements raise \<^verbatim>\<open>AssertionError\<close>.
\<close>

definition topological_sort ::
  "('n list \<Rightarrow> 'n \<Rightarrow> int) \<Rightarrow> ('n, 'e) target \<Rightarrow> ('n, 'e) graph option \<Rightarrow> error + 'n list"
where
  "topological_sort sort_key_from_iter target graph =
     (case arguments target graph of
        Inl e \<Rightarrow> Inl e
      | Inr (g, ns) \<Rightarrow>
     (case copy g of
        Inl e \<Rightarrow> Inl e
      | Inr remaining \<Rightarrow>
     (case ready g (nodes g) of
        Inl e \<Rightarrow> Inl e
      | Inr pending \<Rightarrow>
     (case sort_loop (sort_key_from_iter ns) remaining pending [] of
        Inl e \<Rightarrow> Inl e
      | Inr (remaining', result) \<Rightarrow>
          if nodes remaining' \<noteq> [] then Inl AssertionError
          else
            (case is_topologically_sorted (rev result) g of
               Inl e \<Rightarrow> Inl e
             | Inr ok \<Rightarrow>
                 if \<not> ok then Inl AssertionError
                 else Inr (filter (\<lambda>node. node \<in> set ns) (rev result)))))))"

text \<open>
  Modelled from the spec: what \<^verbatim>\<open>sort_key_from_iter\<close> of \<^verbatim>\<open>ssort/_utils.py\<close> returns.
  Section 4.4 says that the rank of a node is its zero-based position in the reference
  sequence. \<open>position_key\<close> is one such function; nodes absent from the sequence, for
  which the spec leaves the rank open, get the length of the sequence.
\<close>

definition ranks_by_position :: "('n list \<Rightarrow> 'n \<Rightarrow> int) \<Rightarrow> bool" where
  "ranks_by_position sort_key_from_iter \<longleftrightarrow>
     (\<forall>ns i. distinct ns \<longrightarrow> i < length ns \<longrightarrow> sort_key_from_iter ns (ns ! i) = int i)"

fun position :: "'n list \<Rightarrow> 'n \<Rightarrow> nat" where
  "position [] n = 0"
| "position (x # xs) n = (if x = n then 0 else Suc (position xs n))"

definition position_key :: "'n list \<Rightarrow> 'n \<Rightarrow> int" where
  "position_key ns n = int (position ns n)"

text \<open>\<open>precedes b a xs\<close>: \<open>b\<close> occurs in \<open>xs\<close>, and \<open>a\<close> occurs after its first occurrence.\<close>

fun precedes :: "'n \<Rightarrow> 'n \<Rightarrow> 'n list \<Rightarrow> bool" where
  "precedes b a [] = False"
| "precedes b a (x # xs) = (if x = b then a \<in> set xs else precedes b a xs)"

section \<open>The sort on a store of objects\<close>

text \<open>
  The functions above pass graphs as values, which cannot say whether the call changes
  the graph of its caller. For that the objects are put in a store. A \<^verbatim>\<open>Graph\<close> object
  has an address, at which the store holds its two outer dictionaries; these map a
  node to the address of an inner dictionary, and the store holds the inner
  dictionaries by address. A method that mutates an object changes the store at the
  addresses it writes. The functions below are the methods and the sort once more, on
  the store, with the suffix \<open>_st\<close>; they return the new store besides their result.
  A key view (\<^verbatim>\<open>d.keys()\<close>) is the address of its dictionary: what it shows is read
  from the store at the time it is iterated (\<open>view\<close>).
\<close>

type_synonym ref = nat

record ('n, 'e) store =
  graphs :: "ref \<Rightarrow> ('n, ref) dict \<times> ('n, ref) dict"
  dicts :: "ref \<Rightarrow> ('n, 'e) dict"
  next_ref :: ref

text \<open>A new empty dictionary \<^verbatim>\<open>{}\<close> and a new \<^verbatim>\<open>Graph()\<close>, at the next free address.\<close>

definition new_dict :: "('n, 'e) store \<Rightarrow> ref \<times> ('n, 'e) store" where
  "new_dict s = (next_ref s, s\<lparr>dicts := (dicts s)(next_ref s := []), next_ref := Suc (next_ref s)\<rparr>)"

definition Graph_st :: "('n, 'e) store \<Rightarrow> ref \<times> ('n, 'e) store" where
  "Graph_st s =
     (next_ref s, s\<lparr>graphs := (graphs s)(next_ref s := ([], [])), next_ref := Suc (next_ref s)\<rparr>)"

definition nodes_st :: "('n, 'e) store \<Rightarrow> ref \<Rightarrow> 'n list" where
  "nodes_st s g = map fst (fst (graphs s g))"

definition view :: "('n, 'e) store \<Rightarrow> ref \<Rightarrow> 'n list" where
  "view s r = map fst (dicts s r)"

definition successors_st :: "('n, 'e) store \<Rightarrow> ref \<Rightarrow> 'n \<Rightarrow> error + ref" where
  "successors_st s g node =
     (case map_of (fst (graphs s g)) node of None \<Rightarrow> Inl KeyError | Some r \<Rightarrow> Inr r)"

definition predecessors_st :: "('n, 'e) store \<Rightarrow> ref \<Rightarrow> 'n \<Rightarrow> error + ref" where
  "predecessors_st s g node =
     (case map_of (snd (graphs s g)) node of None \<Rightarrow> Inl KeyError | Some r \<Rightarrow> Inr r)"

text \<open>
  \<^verbatim>\<open>outer.setdefault(node, {})\<close>: the new dictionary is stored when the key is absent
  (Python builds it in either case and drops it when the key is present).
\<close>

definition setdefault_st ::
  "('n, 'e) store \<Rightarrow> ('n, ref) dict \<Rightarrow> 'n \<Rightarrow> ('n, ref) dict \<times> ('n, 'e) store"
where
  "setdefault_st s outer node =
     (case map_of outer node of
        Some _ \<Rightarrow> (outer, s)
      | None \<Rightarrow> (let (r, s') = new_dict s in (outer @ [(node, r)], s')))"

definition add_node_st :: "('n, 'e) store \<Rightarrow> ref \<Rightarrow> 'n \<Rightarrow> ('n, 'e) store" where
  "add_node_st s g node =
     (let (out, inc) = graphs s g;
          (out', s1) = setdefault_st s out node;
          (inc', s2) = setdefault_st s1 inc node
      in s2\<lparr>graphs := (graphs s2)(g := (out', inc'))\<rparr>)"

text \<open>\<^verbatim>\<open>r.update(other)\<close> and \<^verbatim>\<open>r.pop(node, None)\<close> on inner dictionaries, by address.\<close>

definition update_dict_st :: "('n, 'e) store \<Rightarrow> ref \<Rightarrow> ref \<Rightarrow> ('n, 'e) store" where
  "update_dict_st s r other = s\<lparr>dicts := (dicts s)(r := dict_update (dicts s r) (dicts s other))\<rparr>"

definition pop_st :: "('n, 'e) store \<Rightarrow> ref \<Rightarrow> 'n \<Rightarrow> ('n, 'e) store" where
  "pop_st s r node = s\<lparr>dicts := (dicts s)(r := AList.delete node (dicts s r))\<rparr>"

fun update_from_st ::
  "('n, 'e) store \<Rightarrow> ref \<Rightarrow> ref \<Rightarrow> 'n list \<Rightarrow> error option \<times> ('n, 'e) store"
where
  "update_from_st s self other [] = (None, s)"
| "update_from_st s self other (node # ns) =
     (let s1 = add_node_st s self node in
      case map_of (fst (graphs s1 self)) node of
        None \<Rightarrow> (Some KeyError, s1)
      | Some so \<Rightarrow>
     (case map_of (fst (graphs s1 other)) node of
        None \<Rightarrow> (Some KeyError, s1)
      | Some oo \<Rightarrow>
     (let s2 = update_dict_st s1 so oo in
      case map_of (snd (graphs s2 self)) node of
        None \<Rightarrow> (Some KeyError, s2)
      | Some si \<Rightarrow>
     (case map_of (snd (graphs s2 other)) node of
        None \<Rightarrow> (Some KeyError, s2)
      | Some oi \<Rightarrow> update_from_st (update_dict_st s2 si oi) self other ns))))"

definition update_st :: "('n, 'e) store \<Rightarrow> ref \<Rightarrow> ref \<Rightarrow> error option \<times> ('n, 'e) store" where
  "update_st s self other = update_from_st s self other (nodes_st s other)"

definition copy_st :: "('n, 'e) store \<Rightarrow> ref \<Rightarrow> (error + ref) \<times> ('n, 'e) store" where
  "copy_st s self =
     (let (c, s1) = Graph_st s in
      case update_st s1 c self of
        (Some e, s2) \<Rightarrow> (Inl e, s2)
      | (None, s2) \<Rightarrow> (Inr c, s2))"

fun discard_st ::
  "('n, 'e) store \<Rightarrow> ('n, ref) dict \<Rightarrow> 'n \<Rightarrow> 'n list \<Rightarrow> error option \<times> ('n, 'e) store"
where
  "discard_st s idx node [] = (None, s)"
| "discard_st s idx node (k # ks) =
     (case map_of idx k of
        None \<Rightarrow> (Some KeyError, s)
      | Some r \<Rightarrow> discard_st (pop_st s r node) idx node ks)"

definition remove_node_st ::
  "('n, 'e) store \<Rightarrow> ref \<Rightarrow> 'n \<Rightarrow> error option \<times> ('n, 'e) store"
where
  "remove_node_st s g node =
     (let (out, inc) = graphs s g in
      case map_of out node of
        None \<Rightarrow> (Some KeyError, s)
      | Some ro \<Rightarrow>
     (case map_of inc node of
        None \<Rightarrow> (Some KeyError, s)
      | Some ri \<Rightarrow>
     (let out_edges = view s ro; in_edges = view s ri in
      case discard_st s inc node out_edges of
        (Some e, s1) \<Rightarrow> (Some e, s1)
      | (None, s1) \<Rightarrow>
     (case discard_st s1 out node in_edges of
        (Some e, s2) \<Rightarrow> (Some e, s2)
      | (None, s2) \<Rightarrow>
     (case pop node out of
        Inl e \<Rightarrow> (Some e, s2)
      | Inr out' \<Rightarrow>
     (case pop node inc of
        Inl e \<Rightarrow> (Some e, s2\<lparr>graphs := (graphs s2)(g := (out', inc))\<rparr>)
      | Inr inc' \<Rightarrow> (None, s2\<lparr>graphs := (graphs s2)(g := (out', inc'))\<rparr>)))))))"

fun ready_st :: "('n, 'e) store \<Rightarrow> ref \<Rightarrow> 'n list \<Rightarrow> error + 'n list" where
  "ready_st s g [] = Inr []"
| "ready_st s g (node # ns) =
     (case predecessors_st s g node of
        Inl e \<Rightarrow> Inl e
      | Inr ps \<Rightarrow>
          (case ready_st s g ns of
             Inl e \<Rightarrow> Inl e
           | Inr pending \<Rightarrow> Inr (if view s ps = [] then node # pending else pending)))"

fun enqueue_st :: "('n, 'e) store \<Rightarrow> ref \<Rightarrow> 'n list \<Rightarrow> 'n list \<Rightarrow> error + 'n list" where
  "enqueue_st s g [] pending = Inr pending"
| "enqueue_st s g (dependency # ds) pending =
     (case predecessors_st s g dependency of
        Inl e \<Rightarrow> Inl e
      | Inr ps \<Rightarrow>
          enqueue_st s g ds
            (if view s ps = [] \<and> dependency \<notin> set pending then pending @ [dependency]
             else pending))"

text \<open>Each round of the loop takes a node out of the outer dictionary of \<open>remaining\<close>.\<close>

lemma discard_st_graphs: "discard_st s idx node ks = (r, s') \<Longrightarrow> graphs s' = graphs s"
  by (induction ks arbitrary: s) (auto simp: pop_st_def split: option.splits)

lemma remove_node_st_shrinks:
  assumes "remove_node_st s g node = (None, s')"
  shows "length (fst (graphs s' g)) < length (fst (graphs s g))"
proof -
  obtain out inc where gi: "graphs s g = (out, inc)" by (cases "graphs s g")
  from assms gi obtain v out' where "map_of out node = Some v" "out' = AList.delete node out"
    and "fst (graphs s' g) = out'"
    by (auto simp: remove_node_st_def Let_def pop_def split: option.splits prod.splits sum.splits)
  with length_delete_present [of out node v] gi show ?thesis by simp
qed

function sort_loop_st ::
  "('n \<Rightarrow> int) \<Rightarrow> ref \<Rightarrow> ('n, 'e) store \<Rightarrow> 'n list \<Rightarrow> 'n list \<Rightarrow>
   (error + 'n list) \<times> ('n, 'e) store"
where
  "sort_loop_st key remaining s pending result =
     (if pending = [] then (Inr result, s)
      else
        let sorted_pending = sort_key key pending;
            node = last sorted_pending
        in case successors_st s remaining node of
             Inl e \<Rightarrow> (Inl e, s)
           | Inr dependencies \<Rightarrow>
               (case remove_node_st s remaining node of
                  (Some e, s') \<Rightarrow> (Inl e, s')
                | (None, s') \<Rightarrow>
                    (case enqueue_st s' remaining (view s' dependencies) (butlast sorted_pending) of
                       Inl e \<Rightarrow> (Inl e, s')
                     | Inr pending' \<Rightarrow>
                         sort_loop_st key remaining s' pending' (result @ [node]))))"
  by pat_completeness auto
termination
  by (relation "measure (\<lambda>(key, remaining, s, pending, result). length (fst (graphs s remaining)))")
    (auto dest: remove_node_st_shrinks [OF sym])

declare sort_loop_st.simps [simp del]

fun sorted_from_st :: "('n, 'e) store \<Rightarrow> ref \<Rightarrow> 'n list \<Rightarrow> 'n set \<Rightarrow> error + bool" where
  "sorted_from_st s g [] visited = Inr True"
| "sorted_from_st s g (node # ns) visited =
     (case successors_st s g node of
        Inl e \<Rightarrow> Inl e
      | Inr dependencies \<Rightarrow>
          if list_all (\<lambda>dependency. dependency \<in> insert node visited) (view s dependencies)
          then sorted_from_st s g ns (insert node visited)
          else Inr False)"

datatype 'n target_st = GraphRef ref | ListValue "'n list"

definition arguments_st ::
  "('n, 'e) store \<Rightarrow> 'n target_st \<Rightarrow> ref option \<Rightarrow> error + (ref \<times> 'n list)"
where
  "arguments_st s target graph =
     (case graph of
        None \<Rightarrow>
          (case target of
             GraphRef t \<Rightarrow> Inr (t, nodes_st s t)
           | ListValue _ \<Rightarrow> Inl TypeError)
      | Some g \<Rightarrow>
          (case target of
             ListValue ns \<Rightarrow> Inr (g, ns)
           | GraphRef _ \<Rightarrow> Inl TypeError))"

definition topological_sort_st ::
  "('n list \<Rightarrow> 'n \<Rightarrow> int) \<Rightarrow> 'n target_st \<Rightarrow> ref option \<Rightarrow> ('n, 'e) store \<Rightarrow>
   (error + 'n list) \<times> ('n, 'e) store"
where
  "topological_sort_st sort_key_from_iter target graph s =
     (case arguments_st s target graph of
        Inl e \<Rightarrow> (Inl e, s)
      | Inr (g, ns) \<Rightarrow>
     (case copy_st s g of
        (Inl e, s1) \<Rightarrow> (Inl e, s1)
      | (Inr remaining, s1) \<Rightarrow>
     (case ready_st s1 g (nodes_st s1 g) of
        Inl e \<Rightarrow> (Inl e, s1)
      | Inr pending \<Rightarrow>
     (case sort_loop_st (sort_key_from_iter ns) remaining s1 pending [] of
        (Inl e, s2) \<Rightarrow> (Inl e, s2)
      | (Inr result, s2) \<Rightarrow>
          if nodes_st s2 remaining \<noteq> [] then (Inl AssertionError, s2)
          else
            (case sorted_from_st s2 g (rev result) {} of
               Inl e \<Rightarrow> (Inl e, s2)
             | Inr ok \<Rightarrow>
                 if \<not> ok then (Inl AssertionError, s2)
                 else (Inr (filter (\<lambda>node. node \<in> set ns) (rev result)), s2))))))"

text \<open>
  The value of the graph object at address \<open>g\<close>: its nodes, edges and labels, read from
  the store.
\<close>

definition graph_value :: "('n, 'e) store \<Rightarrow> ref \<Rightarrow> ('n, 'e) graph" where
  "graph_value s g =
     \<lparr>out_edges = map (\<lambda>(n, r). (n, dicts s r)) (fst (graphs s g)),
      in_edges = map (\<lambda>(n, r). (n, dicts s r)) (snd (graphs s g))\<rparr>"

text \<open>
  \<open>unchanged_below n s s'\<close>: every object and dictionary at an address below \<open>n\<close> is in
  \<open>s'\<close> what it is in \<open>s\<close>. \<open>owned n s c\<close>: the graph at \<open>c\<close> and its inner dictionaries
  lie at addresses from \<open>n\<close> on. \<open>allocated s g\<close>: the graph at \<open>g\<close> and its inner
  dictionaries lie below the next free address.
\<close>

definition unchanged_below :: "ref \<Rightarrow> ('n, 'e) store \<Rightarrow> ('n, 'e) store \<Rightarrow> bool" where
  "unchanged_below n s s' \<longleftrightarrow> (\<forall>r < n. graphs s' r = graphs s r \<and> dicts s' r = dicts s r)"

definition refs :: "('n, 'e) store \<Rightarrow> ref \<Rightarrow> ref set" where
  "refs s g = snd ` set (fst (graphs s g)) \<union> snd ` set (snd (graphs s g))"

definition owned :: "ref \<Rightarrow> ('n, 'e) store \<Rightarrow> ref \<Rightarrow> bool" where
  "owned n s c \<longleftrightarrow> n \<le> c \<and> n \<le> next_ref s \<and> (\<forall>r \<in> refs s c. n \<le> r)"

definition allocated :: "('n, 'e) store \<Rightarrow> ref \<Rightarrow> bool" where
  "allocated s g \<longleftrightarrow> g < next_ref s \<and> (\<forall>r \<in> refs s g. r < next_ref s)"

text \<open>
  \<open>index_value D idx\<close> is the nested value of an outer dictionary \<open>idx\<close> when the inner
  dictionaries are \<open>D\<close>. \<open>unshared s c\<close>: the entries of the two outer dictionaries of the
  graph at \<open>c\<close> hold pairwise different, allocated addresses, so that a write through one
  entry is seen through no other. \<open>target_value\<close> reads the first argument of the sort
  from the store.
\<close>

definition index_value :: "(ref \<Rightarrow> ('n, 'e) dict) \<Rightarrow> ('n, ref) dict \<Rightarrow> ('n, 'e) index" where
  "index_value D idx = map (\<lambda>(n, r). (n, D r)) idx"

definition unshared :: "('n, 'e) store \<Rightarrow> ref \<Rightarrow> bool" where
  "unshared s c \<longleftrightarrow>
     distinct (map snd (fst (graphs s c)) @ map snd (snd (graphs s c))) \<and>
     (\<forall>r \<in> refs s c. r < next_ref s)"

definition target_value :: "('n, 'e) store \<Rightarrow> 'n target_st \<Rightarrow> ('n, 'e) target" where
  "target_value s target =
     (case target of GraphRef t \<Rightarrow> GraphTarget (graph_value s t) | ListValue ns \<Rightarrow> ListTarget ns)"

section \<open>Invariants\<close>

text \<open>
  The lists stand for dictionaries: no key occurs twice, at either level. Every method
  keeps this; it is the part of the data model that the type \<open>dict\<close> leaves open.
\<close>

definition is_index :: "('n, 'e) index \<Rightarrow> bool" where
  "is_index idx \<longleftrightarrow> is_dict idx \<and> list_all (\<lambda>(n, d). is_dict d) idx"

definition is_graph :: "('n, 'e) graph \<Rightarrow> bool" where
  "is_graph g \<longleftrightarrow> is_index (out_edges g) \<and> is_index (in_edges g)"

text \<open>The label of the entry \<open>b\<close> in the dictionary that index \<open>idx\<close> holds for \<open>a\<close>.\<close>

definition entry :: "('n, 'e) index \<Rightarrow> 'n \<Rightarrow> 'n \<Rightarrow> 'e option" where
  "entry idx a b = (case map_of idx a of None \<Rightarrow> None | Some d \<Rightarrow> map_of d b)"

definition mirror_invariant :: "('n, 'e) graph \<Rightarrow> bool" where
  "mirror_invariant g \<longleftrightarrow>
     keys (out_edges g) = keys (in_edges g) \<and>
     (\<forall>origin destination label.
        entry (out_edges g) origin destination = Some label \<longleftrightarrow>
        entry (in_edges g) destination origin = Some label)"

text \<open>The edge relation of a graph, read from the outgoing index.\<close>

definition edges :: "('n, 'e) graph \<Rightarrow> ('n \<times> 'n) set" where
  "edges g = {(a, b). entry (out_edges g) a b \<noteq> None}"

text \<open>
  What holds of the stack and of \<^verbatim>\<open>in_stack\<close> whenever control is at the head of the
  \<^verbatim>\<open>while stack:\<close> loop: \<^verbatim>\<open>in_stack\<close> is the set of the nodes on the stack, no node is on it
  twice, the dependencies left in a frame are successors of its node, and each frame's
  node is a successor of the node of the frame below.
\<close>

definition dfs_state :: "('n, 'e) graph \<Rightarrow> 'n frame list \<Rightarrow> 'n set \<Rightarrow> bool" where
  "dfs_state g stack in_stack \<longleftrightarrow>
     in_stack = set (map fst stack) \<and> distinct (map fst stack) \<and>
     (\<forall>(n, ds) \<in> set stack. \<forall>d \<in> set ds. (n, d) \<in> edges g) \<and>
     successively (\<lambda>a b. (a, b) \<in> edges g) (map fst stack)"

text \<open>
  A list is a cycle of the graph when its nodes are distinct and, read backwards, each
  node has an edge to the next and the last one (the head of the list) has an edge to
  the first.
\<close>

definition is_cycle :: "('n, 'e) graph \<Rightarrow> 'n list \<Rightarrow> bool" where
  "is_cycle g c \<longleftrightarrow>
     c \<noteq> [] \<and> distinct c \<and> successively (\<lambda>a b. (a, b) \<in> edges g) (rev c) \<and>
     (hd c, last c) \<in> edges g"

text \<open>
  For the converse, that a search which finds nothing has seen every cycle: the set
  \<^verbatim>\<open>processed\<close> is closed under successors and none of its nodes lies on a cycle, and
  every successor of a node on the stack is still in its frame, or processed, or the
  node of the frame above. The frames are listed from the top of the stack down.
\<close>

definition settled :: "('n, 'e) graph \<Rightarrow> 'n set \<Rightarrow> bool" where
  "settled g P \<longleftrightarrow>
     (\<forall>n \<in> P. \<forall>b. (n, b) \<in> edges g \<longrightarrow> b \<in> P) \<and> (\<forall>n \<in> P. (n, n) \<notin> (edges g)\<^sup>+)"

fun below_done :: "('n, 'e) graph \<Rightarrow> 'n set \<Rightarrow> 'n frame list \<Rightarrow> 'n option \<Rightarrow> bool" where
  "below_done g P [] nxt = True"
| "below_done g P ((n, ds) # fs) nxt \<longleftrightarrow>
     (\<forall>b. (n, b) \<in> edges g \<longrightarrow> b \<in> set ds \<or> b \<in> P \<or> Some b = nxt) \<and>
     below_done g P fs (Some n)"

definition frames_done :: "('n, 'e) graph \<Rightarrow> 'n set \<Rightarrow> 'n frame list \<Rightarrow> bool" where
  "frames_done g P stack = below_done g P (rev stack) None"

text \<open>A node with an edge into it, and a list in which no node has an edge to a later one.\<close>

definition has_pred :: "('n, 'e) graph \<Rightarrow> 'n \<Rightarrow> bool" where
  "has_pred g n \<longleftrightarrow> (\<exists>a. (a, n) \<in> edges g)"

fun no_dep_before :: "('n, 'e) graph \<Rightarrow> 'n list \<Rightarrow> bool" where
  "no_dep_before g [] = True"
| "no_dep_before g (x # xs) \<longleftrightarrow> (\<forall>b \<in> set xs. (x, b) \<notin> edges g) \<and> no_dep_before g xs"

text \<open>
  What holds at the head of the \<^verbatim>\<open>while pending:\<close> loop, \<open>g\<close> being the caller's graph:
  \<open>remaining\<close> is \<open>g\<close> without the nodes of \<open>result\<close>; \<open>pending\<close> holds, once each,
  the nodes of \<open>remaining\<close> with no edge into them; \<open>result\<close> holds each node once, a
  node only after all nodes with an edge to it, and no node that lies on a cycle.
\<close>

definition sort_inv ::
  "('n, 'e) graph \<Rightarrow> ('n, 'e) graph \<Rightarrow> 'n list \<Rightarrow> 'n list \<Rightarrow> bool"
where
  "sort_inv g remaining pending result \<longleftrightarrow>
     mirror_invariant remaining \<and>
     keys (out_edges remaining) = keys (out_edges g) - set result \<and>
     edges remaining = {(a, b) \<in> edges g. a \<notin> set result \<and> b \<notin> set result} \<and>
     distinct pending \<and>
     set pending = {n \<in> keys (out_edges remaining). \<not> has_pred remaining n} \<and>
     distinct result \<and> set result \<subseteq> keys (out_edges g) \<and>
     (\<forall>(a, b) \<in> edges g. b \<in> set result \<longrightarrow> a \<in> set result) \<and>
     no_dep_before g (rev result) \<and>
     (\<forall>n \<in> set result. (n, n) \<notin> (edges g)\<^sup>+)"

section \<open>Dictionary and index lemmas\<close>

lemma keys_update: "keys (AList.update k v d) = insert k (keys d)"
  by (simp add: keys_def dom_update)

lemma keys_delete: "keys (AList.delete k d) = keys d - {k}"
  by (auto simp: keys_def AList.delete_eq)

lemma map_of_keys: "map_of d k = Some v \<Longrightarrow> k \<in> keys d"
  by (auto simp: keys_def dest: map_of_SomeD intro: rev_image_eqI)

lemma keys_map_of: "k \<in> keys d \<longleftrightarrow> map_of d k \<noteq> None"
  by (simp add: keys_def map_of_eq_None_iff)

lemma keys_update_present: "map_of idx a = Some d \<Longrightarrow> keys (AList.update a d' idx) = keys idx"
  by (simp add: keys_update insert_absorb map_of_keys)

lemma entry_update:
  "entry (AList.update a d idx) x y = (if x = a then map_of d y else entry idx x y)"
  by (simp add: entry_def update_conv')

lemma entry_delete:
  "entry (AList.delete a idx) x y = (if x = a then None else entry idx x y)"
  by (simp add: entry_def delete_conv')

lemma map_of_setdefault:
  "map_of (setdefault k v d) x = (if x = k \<and> map_of d k = None then Some v else map_of d x)"
  by (auto simp: setdefault_def map_add_def split: option.splits)

lemma keys_setdefault: "keys (setdefault k v d) = insert k (keys d)"
  by (auto simp: keys_map_of map_of_setdefault split: if_splits)

lemma entry_setdefault: "entry (setdefault k [] idx) = entry idx"
  by (auto simp: entry_def map_of_setdefault fun_eq_iff split: option.splits)

lemma mirror_add_node: "mirror_invariant g \<Longrightarrow> mirror_invariant (add_node g n)"
  by (simp add: mirror_invariant_def add_node_def entry_setdefault keys_setdefault)

lemma entry_keys: "entry idx a b = Some l \<Longrightarrow> a \<in> keys idx"
  by (auto simp: entry_def split: option.splits dest: map_of_keys)

lemma entry_Some: "map_of idx a = Some d \<Longrightarrow> entry idx a b = map_of d b"
  by (simp add: entry_def)

lemma add_edge_Inr:
  assumes "add_edge g a b l = Inr g'"
  shows "entry (out_edges g') x y = (if x = a \<and> y = b then Some l else entry (out_edges g) x y)"
    and "entry (in_edges g') y x = (if x = a \<and> y = b then Some l else entry (in_edges g) y x)"
    and "keys (out_edges g') = keys (out_edges g)"
    and "keys (in_edges g') = keys (in_edges g)"
  using assms
  by (auto simp: add_edge_def entry_update update_conv' keys_update_present entry_Some
      split: option.splits)

lemma add_edge_Inl: "add_edge g a b l = Inl (e, g') \<Longrightarrow> g' = g"
  by (auto simp: add_edge_def split: option.splits)

lemma mirror_add_edge: "mirror_invariant g \<Longrightarrow> mirror_invariant (state_after (add_edge g a b l))"
proof (cases "add_edge g a b l")
  case (Inl p)
  assume "mirror_invariant g"
  with Inl show ?thesis by (cases p) (auto simp: state_after_def dest: add_edge_Inl)
next
  case (Inr g')
  assume "mirror_invariant g"
  with Inr show ?thesis
    by (simp add: state_after_def mirror_invariant_def add_edge_Inr [OF Inr])
qed

lemma remove_edge_Inr:
  assumes "remove_edge g a b = Inr g'"
  shows "entry (out_edges g') x y = (if x = a \<and> y = b then None else entry (out_edges g) x y)"
    and "entry (in_edges g') y x = (if x = a \<and> y = b then None else entry (in_edges g) y x)"
    and "keys (out_edges g') = keys (out_edges g)"
    and "keys (in_edges g') = keys (in_edges g)"
  using assms
  by (auto simp: remove_edge_def entry_update delete_conv' keys_update_present entry_Some
      split: option.splits)

lemma remove_edge_Inl: "remove_edge g a b = Inl (e, g') \<Longrightarrow> g' = g"
  by (auto simp: remove_edge_def split: option.splits)

lemma mirror_remove_edge: "mirror_invariant g \<Longrightarrow> mirror_invariant (state_after (remove_edge g a b))"
proof (cases "remove_edge g a b")
  case (Inl p)
  assume "mirror_invariant g"
  with Inl show ?thesis by (cases p) (auto simp: state_after_def dest: remove_edge_Inl)
next
  case (Inr g')
  assume "mirror_invariant g"
  with Inr show ?thesis
    by (simp add: state_after_def mirror_invariant_def remove_edge_Inr [OF Inr])
qed


lemma discard_Inr:
  "discard node ks idx = Inr idx' \<Longrightarrow>
   keys idx' = keys idx \<and>
   (\<forall>a b. entry idx' a b = (if a \<in> set ks \<and> b = node then None else entry idx a b))"
proof (induction ks arbitrary: idx)
  case Nil
  then show ?case by simp
next
  case (Cons k ks)
  then obtain d where d: "map_of idx k = Some d"
    and rest: "discard node ks (AList.update k (AList.delete node d) idx) = Inr idx'"
    by (auto split: option.splits)
  from Cons.IH [OF rest] d show ?case
    by (auto simp: keys_update_present entry_update delete_conv' entry_Some)
qed

lemma discard_total:
  "set ks \<subseteq> keys idx \<Longrightarrow> \<exists>idx'. discard node ks idx = Inr idx'"
proof (induction ks arbitrary: idx)
  case Nil
  then show ?case by simp
next
  case (Cons k ks)
  then obtain d where d: "map_of idx k = Some d" by (auto simp: keys_map_of)
  with Cons.prems have "set ks \<subseteq> keys (AList.update k (AList.delete node d) idx)"
    by (simp add: keys_update_present)
  from Cons.IH [OF this] d show ?case by simp
qed

lemma mirror_succ_keys:
  assumes "mirror_invariant g" "map_of (out_edges g) a = Some d"
  shows "keys d \<subseteq> keys (in_edges g)"
proof
  fix b assume "b \<in> keys d"
  then obtain l where "map_of d b = Some l" by (auto simp: keys_map_of)
  with assms(2) have "entry (out_edges g) a b = Some l" by (simp add: entry_Some)
  with assms(1) have "entry (in_edges g) b a = Some l" by (simp add: mirror_invariant_def)
  then show "b \<in> keys (in_edges g)" by (rule entry_keys)
qed

lemma mirror_pred_keys:
  assumes "mirror_invariant g" "map_of (in_edges g) a = Some d"
  shows "keys d \<subseteq> keys (out_edges g)"
proof
  fix b assume "b \<in> keys d"
  then obtain l where "map_of d b = Some l" by (auto simp: keys_map_of)
  with assms(2) have "entry (in_edges g) a b = Some l" by (simp add: entry_Some)
  with assms(1) have "entry (out_edges g) b a = Some l" by (simp add: mirror_invariant_def)
  then show "b \<in> keys (out_edges g)" by (rule entry_keys)
qed

lemma pop_Inr: "map_of d k = Some v \<Longrightarrow> pop k d = Inr (AList.delete k d)"
  by (simp add: pop_def)

lemma remove_node_Inl:
  assumes "mirror_invariant g" "remove_node g node = Inl (e, g')"
  shows "g' = g \<and> node \<notin> keys (out_edges g)"
proof (cases "map_of (out_edges g) node")
  case None
  with assms show ?thesis by (simp add: remove_node_def keys_map_of)
next
  case (Some out)
  show ?thesis
  proof (cases "map_of (in_edges g) node")
    case None
    with assms Some show ?thesis
      using map_of_keys [OF Some] by (simp add: remove_node_def keys_map_of mirror_invariant_def)
  next
    case inc: (Some inc)
    from mirror_succ_keys [OF assms(1) Some]
    obtain ins where ins: "discard node (map fst out) (in_edges g) = Inr ins"
      using discard_total [of "map fst out" "in_edges g" node] by (auto simp: keys_def)
    from mirror_pred_keys [OF assms(1) inc]
    obtain outs where outs: "discard node (map fst inc) (out_edges g) = Inr outs"
      using discard_total [of "map fst inc" "out_edges g" node] by (auto simp: keys_def)
    from discard_Inr [OF ins] map_of_keys [OF inc] have "node \<in> keys ins" by simp
    then obtain v where v: "map_of ins node = Some v" by (auto simp: keys_map_of)
    from discard_Inr [OF outs] map_of_keys [OF Some] have "node \<in> keys outs" by simp
    then obtain w where w: "map_of outs node = Some w" by (auto simp: keys_map_of)
    from assms(2) Some inc ins outs show ?thesis
      by (simp add: remove_node_def pop_Inr [OF v] pop_Inr [OF w])
  qed
qed

lemma remove_node_Inr:
  assumes "mirror_invariant g" "remove_node g node = Inr g'"
  shows "keys (out_edges g') = keys (out_edges g) - {node}"
    and "keys (in_edges g') = keys (in_edges g) - {node}"
    and "entry (out_edges g') a b = (if a = node \<or> b = node then None else entry (out_edges g) a b)"
    and "entry (in_edges g') a b = (if a = node \<or> b = node then None else entry (in_edges g) a b)"
proof -
  from assms(2) obtain out inc ins outs outs' ins' where
    out: "map_of (out_edges g) node = Some out" and inc: "map_of (in_edges g) node = Some inc"
    and ins: "discard node (map fst out) (in_edges g) = Inr ins"
    and outs: "discard node (map fst inc) (out_edges g) = Inr outs"
    and outs': "pop node outs = Inr outs'" and ins': "pop node ins = Inr ins'"
    and g': "g' = \<lparr>out_edges = outs', in_edges = ins'\<rparr>"
    by (auto simp: remove_node_def split: option.splits sum.splits)
  from outs' have o': "outs' = AList.delete node outs" by (auto simp: pop_def split: option.splits)
  from ins' have i': "ins' = AList.delete node ins" by (auto simp: pop_def split: option.splits)
  note I = discard_Inr [OF ins] and O = discard_Inr [OF outs]
  show "keys (out_edges g') = keys (out_edges g) - {node}"
    by (simp add: g' o' keys_delete O)
  show "keys (in_edges g') = keys (in_edges g) - {node}"
    by (simp add: g' i' keys_delete I)
  have pre: "a \<in> set (map fst inc) \<longleftrightarrow> entry (out_edges g) a node \<noteq> None" for a
  proof -
    have "a \<in> set (map fst inc) \<longleftrightarrow> entry (in_edges g) node a \<noteq> None"
      using keys_map_of [of a inc] by (simp add: entry_Some [OF inc] keys_def)
    with assms(1) show ?thesis by (auto simp: mirror_invariant_def)
  qed
  have suc: "a \<in> set (map fst out) \<longleftrightarrow> entry (in_edges g) a node \<noteq> None" for a
  proof -
    have "a \<in> set (map fst out) \<longleftrightarrow> entry (out_edges g) node a \<noteq> None"
      using keys_map_of [of a out] by (simp add: entry_Some [OF out] keys_def)
    with assms(1) show ?thesis by (auto simp: mirror_invariant_def)
  qed
  show "entry (out_edges g') a b = (if a = node \<or> b = node then None else entry (out_edges g) a b)"
    using pre [of a] by (auto simp: g' o' entry_delete O simp del: set_map)
  show "entry (in_edges g') a b = (if a = node \<or> b = node then None else entry (in_edges g) a b)"
    using suc [of a] by (auto simp: g' i' entry_delete I simp del: set_map)
qed

lemma mirror_remove_node:
  assumes "mirror_invariant g"
  shows "mirror_invariant (state_after (remove_node g node))"
proof (cases "remove_node g node")
  case (Inl p)
  with assms show ?thesis by (cases p) (auto simp: state_after_def dest: remove_node_Inl)
next
  case (Inr g')
  from assms show ?thesis
    by (auto simp: Inr state_after_def mirror_invariant_def remove_node_Inr [OF assms Inr])
qed


lemma set_update_subset: "set (AList.update k v al) \<subseteq> insert (k, v) (set al)"
  by (induction al) auto

lemma set_delete_subset: "set (AList.delete k al) \<subseteq> set al"
  by (auto simp: AList.delete_eq)

lemma is_dict_update: "is_dict d \<Longrightarrow> is_dict (AList.update k v d)"
  by (simp add: is_dict_def distinct_update)

lemma is_dict_delete: "is_dict d \<Longrightarrow> is_dict (AList.delete k d)"
  by (simp add: is_dict_def distinct_delete)

lemma is_index_update: "is_index idx \<Longrightarrow> is_dict d \<Longrightarrow> is_index (AList.update k d idx)"
  using set_update_subset [of k d idx] by (auto simp: is_index_def is_dict_update list_all_iff)

lemma is_index_delete: "is_index idx \<Longrightarrow> is_index (AList.delete k idx)"
  using set_delete_subset [of k idx] by (auto simp: is_index_def is_dict_delete list_all_iff)

lemma is_index_lookup: "is_index idx \<Longrightarrow> map_of idx k = Some d \<Longrightarrow> is_dict d"
  by (auto simp: is_index_def list_all_iff dest!: map_of_SomeD)

lemma is_index_setdefault: "is_index idx \<Longrightarrow> is_index (setdefault k [] idx)"
  by (auto simp: is_index_def setdefault_def is_dict_def map_of_eq_None_iff split: option.splits)

lemma is_graph_add_node: "is_graph g \<Longrightarrow> is_graph (add_node g n)"
  by (simp add: is_graph_def add_node_def is_index_setdefault)

lemma is_graph_add_edge: "is_graph g \<Longrightarrow> is_graph (state_after (add_edge g a b l))"
  by (auto simp: is_graph_def add_edge_def state_after_def split: option.splits
      intro!: is_index_update is_dict_update elim: is_index_lookup)

lemma is_graph_remove_edge: "is_graph g \<Longrightarrow> is_graph (state_after (remove_edge g a b))"
  by (auto simp: is_graph_def remove_edge_def state_after_def split: option.splits
      intro!: is_index_update is_dict_delete elim: is_index_lookup)

lemma is_index_discard:
  "is_index idx \<Longrightarrow> is_index (case discard node ks idx of Inl (e, i) \<Rightarrow> i | Inr i \<Rightarrow> i)"
proof (induction ks arbitrary: idx)
  case Nil
  then show ?case by simp
next
  case (Cons k ks)
  show ?case
  proof (cases "map_of idx k")
    case None
    with Cons.prems show ?thesis by simp
  next
    case (Some d)
    with Cons.prems have "is_index (AList.update k (AList.delete node d) idx)"
      by (auto intro!: is_index_update is_dict_delete elim: is_index_lookup)
    from Cons.IH [OF this] Some show ?thesis by simp
  qed
qed

lemma is_graph_remove_node:
  assumes "is_graph g"
  shows "is_graph (state_after (remove_node g node))"
proof -
  have 1: "is_index i" if "discard node ks (in_edges g) = Inr i" for ks i
    using is_index_discard [of "in_edges g" node ks] assms that by (simp add: is_graph_def)
  have 2: "is_index i" if "discard node ks (in_edges g) = Inl (e, i)" for ks i e
    using is_index_discard [of "in_edges g" node ks] assms that by (simp add: is_graph_def)
  have 3: "is_index i" if "discard node ks (out_edges g) = Inr i" for ks i
    using is_index_discard [of "out_edges g" node ks] assms that by (simp add: is_graph_def)
  have 4: "is_index i" if "discard node ks (out_edges g) = Inl (e, i)" for ks i e
    using is_index_discard [of "out_edges g" node ks] assms that by (simp add: is_graph_def)
  from assms show ?thesis
    by (auto simp: remove_node_def state_after_def is_graph_def pop_def
        split: option.splits sum.splits dest: 1 2 3 4 intro!: is_index_delete)
qed


lemma map_of_dict_update:
  "is_dict other \<Longrightarrow> map_of (dict_update d other) = map_of d ++ map_of other"
proof (induction other arbitrary: d)
  case Nil
  then show ?case by (simp add: dict_update_def)
next
  case (Cons p other)
  obtain k v where p: "p = (k, v)" by (cases p)
  from Cons.prems have dist: "is_dict other" and k: "k \<notin> fst ` set other"
    by (auto simp: is_dict_def p)
  have "map_of (dict_update d (p # other)) = map_of (dict_update (AList.update k v d) other)"
    by (simp add: dict_update_def p)
  also have "\<dots> = (map_of d)(k \<mapsto> v) ++ map_of other"
    by (simp only: Cons.IH [OF dist] update_conv')
  also have "\<dots> = map_of d ++ map_of (p # other)"
    using k by (simp add: p map_add_upd_left dom_map_of_conv_image_fst)
  finally show ?case .
qed

lemma is_dict_dict_update: "is_dict d \<Longrightarrow> is_dict (dict_update d other)"
  unfolding dict_update_def
  by (induction other arbitrary: d) (auto simp: is_dict_update)

lemma update_from_Inr:
  assumes "set ns \<subseteq> keys (out_edges other)" "set ns \<subseteq> keys (in_edges other)"
    and "is_graph other"
  shows "\<exists>s'. update_from self other ns = Inr s' \<and>
     keys (out_edges s') = keys (out_edges self) \<union> set ns \<and>
     keys (in_edges s') = keys (in_edges self) \<union> set ns \<and>
     (\<forall>a b. entry (out_edges s') a b =
        (if a \<in> set ns \<and> entry (out_edges other) a b \<noteq> None
         then entry (out_edges other) a b else entry (out_edges self) a b)) \<and>
     (\<forall>a b. entry (in_edges s') a b =
        (if a \<in> set ns \<and> entry (in_edges other) a b \<noteq> None
         then entry (in_edges other) a b else entry (in_edges self) a b))"
  using assms(1,2)
proof (induction ns arbitrary: self)
  case Nil
  then show ?case by simp
next
  case (Cons node ns)
  define s1 where "s1 = add_node self node"
  obtain so where so: "map_of (out_edges s1) node = Some so"
    using keys_map_of [of node "out_edges s1"] by (auto simp: s1_def add_node_def keys_setdefault)
  obtain oo where oo: "map_of (out_edges other) node = Some oo"
    using Cons.prems keys_map_of [of node "out_edges other"] by auto
  define s2 where "s2 = s1\<lparr>out_edges := AList.update node (dict_update so oo) (out_edges s1)\<rparr>"
  obtain si where si: "map_of (in_edges s2) node = Some si"
    using keys_map_of [of node "in_edges s2"]
    by (auto simp: s2_def s1_def add_node_def keys_setdefault)
  obtain oi where oi: "map_of (in_edges other) node = Some oi"
    using Cons.prems keys_map_of [of node "in_edges other"] by auto
  define s3 where "s3 = s2\<lparr>in_edges := AList.update node (dict_update si oi) (in_edges s2)\<rparr>"
  have step: "update_from self other (node # ns) = update_from s3 other ns"
    using so oo si oi by (simp add: s1_def [symmetric] Let_def s2_def [symmetric] s3_def)
  have doo: "is_dict oo" and doi: "is_dict oi"
    using assms(3) oo oi by (auto simp: is_graph_def elim: is_index_lookup)
  have k_out: "keys (out_edges s3) = insert node (keys (out_edges self))"
    by (simp add: s3_def s2_def keys_update s1_def add_node_def keys_setdefault)
  have k_in: "keys (in_edges s3) = insert node (keys (in_edges self))"
    by (simp add: s3_def s2_def keys_update s1_def add_node_def keys_setdefault)
  have e_out: "entry (out_edges s3) a b =
      (if a = node \<and> entry (out_edges other) a b \<noteq> None
       then entry (out_edges other) a b else entry (out_edges self) a b)" for a b
  proof -
    have "entry (out_edges s1) a b = entry (out_edges self) a b"
      by (simp add: s1_def add_node_def entry_setdefault)
    moreover have "entry (out_edges s1) node b = map_of so b"
      by (simp add: entry_Some [OF so])
    ultimately show ?thesis
      by (auto simp: s3_def s2_def entry_update map_of_dict_update [OF doo] entry_Some [OF oo]
          map_add_def split: option.splits)
  qed
  have e_in: "entry (in_edges s3) a b =
      (if a = node \<and> entry (in_edges other) a b \<noteq> None
       then entry (in_edges other) a b else entry (in_edges self) a b)" for a b
  proof -
    have "entry (in_edges s2) a b = entry (in_edges self) a b"
      by (simp add: s2_def s1_def add_node_def entry_setdefault)
    moreover have "entry (in_edges s2) node b = map_of si b"
      by (simp add: entry_Some [OF si])
    ultimately show ?thesis
      by (auto simp: s3_def entry_update map_of_dict_update [OF doi] entry_Some [OF oi]
          map_add_def split: option.splits)
  qed
  from Cons.prems have "set ns \<subseteq> keys (out_edges other)" "set ns \<subseteq> keys (in_edges other)"
    by auto
  from Cons.IH [OF this, of s3] obtain s' where s': "update_from s3 other ns = Inr s'"
    and 1: "keys (out_edges s') = keys (out_edges s3) \<union> set ns"
    and 2: "keys (in_edges s') = keys (in_edges s3) \<union> set ns"
    and 3: "\<And>a b. entry (out_edges s') a b =
        (if a \<in> set ns \<and> entry (out_edges other) a b \<noteq> None
         then entry (out_edges other) a b else entry (out_edges s3) a b)"
    and 4: "\<And>a b. entry (in_edges s') a b =
        (if a \<in> set ns \<and> entry (in_edges other) a b \<noteq> None
         then entry (in_edges other) a b else entry (in_edges s3) a b)"
    by blast
  show ?case
  proof (intro exI conjI allI)
    show "update_from self other (node # ns) = Inr s'" by (simp only: step s')
    show "keys (out_edges s') = keys (out_edges self) \<union> set (node # ns)"
      by (simp add: 1 k_out)
    show "keys (in_edges s') = keys (in_edges self) \<union> set (node # ns)"
      by (simp add: 2 k_in)
    show "entry (out_edges s') a b =
        (if a \<in> set (node # ns) \<and> entry (out_edges other) a b \<noteq> None
         then entry (out_edges other) a b else entry (out_edges self) a b)" for a b
      by (auto simp: 3 e_out)
    show "entry (in_edges s') a b =
        (if a \<in> set (node # ns) \<and> entry (in_edges other) a b \<noteq> None
         then entry (in_edges other) a b else entry (in_edges self) a b)" for a b
      by (auto simp: 4 e_in)
  qed
qed

lemma mirror_update:
  assumes "mirror_invariant self" "mirror_invariant other" "is_graph other"
  shows "\<exists>s'. update self other = Inr s' \<and> mirror_invariant s'"
proof -
  have sub: "set (nodes other) \<subseteq> keys (out_edges other)" "set (nodes other) \<subseteq> keys (in_edges other)"
    using assms(2) by (auto simp: nodes_def keys_def mirror_invariant_def)
  from update_from_Inr [OF sub assms(3), of self] obtain s' where
    s': "update self other = Inr s'"
    and 1: "keys (out_edges s') = keys (out_edges self) \<union> set (nodes other)"
    and 2: "keys (in_edges s') = keys (in_edges self) \<union> set (nodes other)"
    and 3: "\<And>a b. entry (out_edges s') a b =
        (if a \<in> set (nodes other) \<and> entry (out_edges other) a b \<noteq> None
         then entry (out_edges other) a b else entry (out_edges self) a b)"
    and 4: "\<And>a b. entry (in_edges s') a b =
        (if a \<in> set (nodes other) \<and> entry (in_edges other) a b \<noteq> None
         then entry (in_edges other) a b else entry (in_edges self) a b)"
    unfolding update_def by blast
  have n: "set (nodes other) = keys (out_edges other)" by (simp add: nodes_def keys_def)
  have ko: "a \<in> keys (out_edges other)" if "entry (out_edges other) a b \<noteq> None" for a b
    using that entry_keys [of "out_edges other" a b] by auto
  have ki: "a \<in> keys (out_edges other)" if "entry (in_edges other) a b \<noteq> None" for a b
    using that entry_keys [of "in_edges other" a b] assms(2) by (auto simp: mirror_invariant_def)
  have out': "entry (out_edges s') a b =
        (if entry (out_edges other) a b \<noteq> None
         then entry (out_edges other) a b else entry (out_edges self) a b)" for a b
    using ko [of a b] by (auto simp: 3 n)
  have in': "entry (in_edges s') a b =
        (if entry (in_edges other) a b \<noteq> None
         then entry (in_edges other) a b else entry (in_edges self) a b)" for a b
    using ki [of a b] by (auto simp: 4 n)
  have m: "(entry (out_edges x) a b = Some l) = (entry (in_edges x) b a = Some l)"
    if "mirror_invariant x" for x :: "('a, 'b) graph" and a b l
    using that by (simp add: mirror_invariant_def)
  have "mirror_invariant s'"
    unfolding mirror_invariant_def
  proof (intro conjI allI)
    show "keys (out_edges s') = keys (in_edges s')"
      using assms(1) by (simp add: 1 2 mirror_invariant_def)
    show "(entry (out_edges s') a b = Some l) = (entry (in_edges s') b a = Some l)" for a b l
    proof (cases "entry (out_edges other) a b")
      case None
      then have "entry (in_edges other) b a = None"
        using m [OF assms(2), of a b] by (cases "entry (in_edges other) b a") auto
      with None show ?thesis by (simp add: out' in' m [OF assms(1)])
    next
      case (Some l')
      then have "entry (in_edges other) b a = Some l'" using m [OF assms(2), of a b l'] by simp
      with Some show ?thesis by (simp add: out' in')
    qed
  qed
  with s' show ?thesis by blast
qed

lemma mirror_Graph: "mirror_invariant Graph"
  by (simp add: mirror_invariant_def Graph_def entry_def keys_def)

lemma mirror_copy:
  assumes "mirror_invariant g" "is_graph g"
  shows "\<exists>c. copy g = Inr c \<and> mirror_invariant c"
  using mirror_update [OF mirror_Graph assms] by (auto simp: copy_def)

section \<open>Example graphs\<close>

text \<open>
  \<open>g_loop\<close>: nodes 1 and 2, edges 1 \<rightarrow> 1, 1 \<rightarrow> 2 and 2 \<rightarrow> 1. \<open>g_other\<close>: nodes 2 and 3 and
  the edge 2 \<rightarrow> 3.
\<close>

definition g_loop :: "(nat, bool) graph" where
  "g_loop = \<lparr>out_edges = [(1, [(1, True), (2, False)]), (2, [(1, True)])],
             in_edges = [(1, [(1, True), (2, True)]), (2, [(1, False)])]\<rparr>"

definition g_other :: "(nat, bool) graph" where
  "g_other = \<lparr>out_edges = [(2, [(3, True)]), (3, [])],
              in_edges = [(2, []), (3, [(2, True)])]\<rparr>"

text \<open>\<open>g_tri\<close>: the cycle 1 \<rightarrow> 2 \<rightarrow> 3 \<rightarrow> 1. \<open>draw_first\<close> always takes the first element.\<close>

definition draw_first :: "'n list \<Rightarrow> nat" where
  "draw_first xs = 0"

definition g_tri :: "(nat, bool) graph" where
  "g_tri = \<lparr>out_edges = [(1, [(2, True)]), (2, [(3, True)]), (3, [(1, True)])],
            in_edges = [(1, [(3, True)]), (2, [(1, True)]), (3, [(2, True)])]\<rparr>"

text \<open>
  \<open>g_chain\<close>: nodes 1, 2, 3, 4 and the edges 2 \<rightarrow> 1, 3 \<rightarrow> 2, 4 \<rightarrow> 3. \<open>g_single\<close>: the node 1
  alone. \<open>g_free\<close>: the nodes 7, 3, 9, 1, added in this order, and no edge.
\<close>

definition g_chain :: "(nat, bool) graph" where
  "g_chain = \<lparr>out_edges = [(1, []), (2, [(1, True)]), (3, [(2, True)]), (4, [(3, True)])],
              in_edges = [(1, [(2, True)]), (2, [(3, True)]), (3, [(4, True)]), (4, [])]\<rparr>"

definition g_single :: "(nat, bool) graph" where
  "g_single = \<lparr>out_edges = [(1, [])], in_edges = [(1, [])]\<rparr>"

definition g_free :: "(nat, bool) graph" where
  "g_free = \<lparr>out_edges = [(7, []), (3, []), (9, []), (1, [])],
             in_edges = [(7, []), (3, []), (9, []), (1, [])]\<rparr>"

text \<open>
  \<open>store_chain\<close>: a store with one graph object, at address 0, whose value is \<open>g_chain\<close>;
  its inner dictionaries are at the addresses 1 to 8.
\<close>

definition store_chain :: "(nat, bool) store" where
  "store_chain =
     \<lparr>graphs = (\<lambda>_. ([], []))(0 := ([(1, 1), (2, 2), (3, 3), (4, 4)], [(1, 5), (2, 6), (3, 7), (4, 8)])),
      dicts = (\<lambda>_. [])(2 := [(1, True)], 3 := [(2, True)], 4 := [(3, True)],
                        5 := [(2, True)], 6 := [(3, True)], 7 := [(4, True)]),
      next_ref = 9\<rparr>"

lemma g_loop_mirror: "mirror_invariant g_loop"
  by (auto simp: mirror_invariant_def g_loop_def entry_def keys_def split: if_splits)

lemma g_loop_is_graph: "is_graph g_loop"
  by (simp add: is_graph_def is_index_def is_dict_def g_loop_def)

lemma g_other_mirror: "mirror_invariant g_other"
  by (auto simp: mirror_invariant_def g_other_def entry_def keys_def split: if_splits)

lemma g_other_is_graph: "is_graph g_other"
  by (simp add: is_graph_def is_index_def is_dict_def g_other_def)

section \<open>The graph operations keep the two indices mirrored\<close>

text \<open>
  C5. Every operation of \<^verbatim>\<open>Graph\<close> keeps the mirror invariant: the two indices have the
  same keys, and \<open>origin \<rightarrow> destination\<close> is in the outgoing dictionary of \<open>origin\<close> with
  label \<open>l\<close> exactly when it is in the incoming dictionary of \<open>destination\<close> with label
  \<open>l\<close>. For the methods that can raise, the state they leave behind is covered too
  (\<open>state_after\<close>); \<^verbatim>\<open>update\<close> and \<^verbatim>\<open>copy\<close> return normally on such graphs.
\<close>

theorem graph_operations_keep_mirror_invariant:
  assumes "is_graph g" and "mirror_invariant g" and "is_graph other" and "mirror_invariant other"
  shows "mirror_invariant (add_node g n) \<and>
         mirror_invariant (state_after (add_edge g a b l)) \<and>
         mirror_invariant (state_after (remove_node g m)) \<and>
         mirror_invariant (state_after (remove_edge g c d)) \<and>
         (\<exists>s. update g other = Inr s \<and> mirror_invariant s) \<and>
         (\<exists>c. copy g = Inr c \<and> mirror_invariant c)"
proof (intro conjI)
  show "mirror_invariant (add_node g n)"
    using assms(2) by (rule mirror_add_node)
  show "mirror_invariant (state_after (add_edge g a b l))"
    using assms(2) by (rule mirror_add_edge)
  show "mirror_invariant (state_after (remove_node g m))"
    using assms(2) by (rule mirror_remove_node)
  show "mirror_invariant (state_after (remove_edge g c d))"
    using assms(2) by (rule mirror_remove_edge)
  show "\<exists>s. update g other = Inr s \<and> mirror_invariant s"
    using assms(2,4,3) by (rule mirror_update)
  show "\<exists>c. copy g = Inr c \<and> mirror_invariant c"
    using assms(2,1) by (rule mirror_copy)
qed

theorem graph_operations_keep_mirror_invariant_witness:
  "is_graph g_loop \<and> mirror_invariant g_loop \<and> is_graph g_other \<and> mirror_invariant g_other \<and>
   mirror_invariant (add_node g_loop 3) \<and>
   mirror_invariant (state_after (add_edge g_loop 2 2 True)) \<and>
   mirror_invariant (state_after (remove_node g_loop 1)) \<and>
   mirror_invariant (state_after (remove_edge g_loop 1 2)) \<and>
   (\<exists>s. update g_loop g_other = Inr s \<and> mirror_invariant s) \<and>
   (\<exists>c. copy g_loop = Inr c \<and> mirror_invariant c)"
  using graph_operations_keep_mirror_invariant
    [OF g_loop_is_graph g_loop_mirror g_other_is_graph g_other_mirror,
      where n = 3 and a = 2 and b = 2 and l = True and m = 1 and c = 1 and d = 2]
  by (simp add: g_loop_is_graph g_loop_mirror g_other_is_graph g_other_mirror)

section \<open>Removing a node that has an edge to itself\<close>

text \<open>
  C9. If \<open>n\<close> has an edge to itself, \<^verbatim>\<open>remove_node(n)\<close> returns normally, and afterwards
  \<open>n\<close> is a key of neither index and occurs in no successor and no predecessor set.
\<close>

theorem remove_node_self_loop:
  assumes "mirror_invariant g" and "has_edge g n n"
  shows "\<exists>g'. remove_node g n = Inr g' \<and>
           n \<notin> keys (out_edges g') \<and> n \<notin> keys (in_edges g') \<and>
           (\<forall>m ss. successors g' m = Inr ss \<longrightarrow> n \<notin> set ss) \<and>
           (\<forall>m ps. predecessors g' m = Inr ps \<longrightarrow> n \<notin> set ps)"
proof -
  from assms(2) have n: "n \<in> keys (out_edges g)"
    by (auto simp: has_edge_def split: option.splits dest: map_of_keys)
  obtain g' where g': "remove_node g n = Inr g'"
  proof (cases "remove_node g n")
    case (Inl p)
    with n remove_node_Inl [OF assms(1), of n "fst p" "snd p"] show ?thesis by simp
  next
    case (Inr g')
    then show ?thesis by (rule that)
  qed
  note R = remove_node_Inr [OF assms(1) g']
  have "n \<notin> set ss" if "successors g' m = Inr ss" for m ss
  proof
    assume "n \<in> set ss"
    with that obtain d where "map_of (out_edges g') m = Some d" "n \<in> keys d"
      by (auto simp: successors_def keys_def split: option.splits)
    then have "entry (out_edges g') m n \<noteq> None" by (simp add: entry_Some keys_map_of)
    then show False by (simp add: R)
  qed
  moreover have "n \<notin> set ps" if "predecessors g' m = Inr ps" for m ps
  proof
    assume "n \<in> set ps"
    with that obtain d where "map_of (in_edges g') m = Some d" "n \<in> keys d"
      by (auto simp: predecessors_def keys_def split: option.splits)
    then have "entry (in_edges g') m n \<noteq> None" by (simp add: entry_Some keys_map_of)
    then show False by (simp add: R)
  qed
  ultimately show ?thesis using g' by (auto simp: R)
qed

theorem remove_node_self_loop_witness:
  "has_edge g_loop 1 1 \<and>
   (\<exists>g'. remove_node g_loop 1 = Inr g' \<and>
      1 \<notin> keys (out_edges g') \<and> 1 \<notin> keys (in_edges g') \<and>
      (\<forall>m ss. successors g' m = Inr ss \<longrightarrow> 1 \<notin> set ss) \<and>
      (\<forall>m ps. predecessors g' m = Inr ps \<longrightarrow> 1 \<notin> set ps))"
proof -
  have h: "has_edge g_loop 1 1" by (simp add: has_edge_def g_loop_def keys_def)
  from remove_node_self_loop [OF g_loop_mirror h] h show ?thesis by simp
qed

lemma remove_node_g_loop:
  "remove_node g_loop 1 = Inr \<lparr>out_edges = [(2, [])], in_edges = [(2, [])]\<rparr>"
  by (simp add: remove_node_def g_loop_def pop_def)

section \<open>The cycle that the search returns\<close>

lemma unwind_above:
  "dependency \<notin> fst ` set upper \<Longrightarrow>
   unwind dependency (lower @ (dependency, ds) # upper) cycle = Inr (cycle @ rev (map fst upper))"
proof (induction upper arbitrary: cycle rule: rev_induct)
  case Nil
  then show ?case by (simp add: unwind.simps [of _ "lower @ [(dependency, ds)]"])
next
  case (snoc f upper)
  from snoc.prems have f: "fst f \<noteq> dependency" and rest: "dependency \<notin> fst ` set upper"
    by auto
  have "unwind dependency (lower @ (dependency, ds) # upper @ [f]) cycle
      = unwind dependency (lower @ (dependency, ds) # upper) (cycle @ [fst f])"
    using f
    by (subst unwind.simps)
      (simp add: butlast_append flip: append_Cons append_assoc)
  also have "\<dots> = Inr ((cycle @ [fst f]) @ rev (map fst upper))"
    by (rule snoc.IH [OF rest])
  finally show ?case by simp
qed

text \<open>
  C7 (as amended). When the element drawn from the top frame is on the stack, the loop
  returns at once, and the list it returns is the drawn node followed by the nodes of
  the frames above the drawn node's frame from the top of the stack downwards: the
  suffix of the stack from that frame to the top, with the frames above it in reverse
  stack order. Here \<open>lower\<close> are the frames below the drawn node's frame and \<open>upper\<close> the
  frames above it.
\<close>

theorem drawn_on_stack:
  assumes "stack = lower @ (dependency, ds) # upper"
    and "dependency \<notin> fst ` set upper"
    and "last stack = (top_node, top_dependencies)"
    and "set_pop draw top_dependencies = Inr (dependency, rest)"
    and "dependency \<in> in_stack"
  shows "dfs draw g stack in_stack processed
         = Inr (Cycle (dependency # rev (map fst upper)))"
proof -
  from assms(4) have ne: "top_dependencies \<noteq> []"
    by (auto simp: set_pop_def split: if_splits)
  from assms(1) have s: "stack \<noteq> []" by simp
  obtain ds' upper' where
    st: "butlast stack @ [(top_node, rest)] = lower @ (dependency, ds') # upper'"
    and ab: "map fst upper' = map fst upper"
  proof (cases upper rule: rev_cases)
    case Nil
    with assms(1,3) have "butlast stack @ [(top_node, rest)] = lower @ (dependency, rest) # []"
      by simp
    with Nil show ?thesis by (intro that [of rest "[]"]) simp_all
  next
    case (snoc upper0 f)
    with assms(1,3) have f: "f = (top_node, top_dependencies)" by simp
    from snoc assms(1) have "butlast stack = lower @ (dependency, ds) # upper0"
      by (simp add: butlast_append flip: append_Cons append_assoc)
    then have "butlast stack @ [(top_node, rest)]
        = lower @ (dependency, ds) # (upper0 @ [(top_node, rest)])" by simp
    then show ?thesis using snoc f by (intro that [of ds "upper0 @ [(top_node, rest)]"]) simp_all
  qed
  from assms(2) ab have "dependency \<notin> fst ` set upper'"
    by (metis list.set_map)
  from unwind_above [OF this, of lower ds' "[dependency]"] ab
  have "unwind dependency (butlast stack @ [(top_node, rest)]) [dependency]
      = Inr (dependency # rev (map fst upper))"
    by (simp add: st rev_map [symmetric])
  with s ne assms(3,4,5) show ?thesis
    by (subst dfs.simps) simp
qed

theorem drawn_on_stack_witness:
  "dfs draw_first g_tri [(1, []), (2, []), (3, [1])] {1, 2, 3} {} = Inr (Cycle [1, 3, 2])"
  using drawn_on_stack [of "[(1, []), (2, []), (3, [1])]" "[]" 1 "[]" "[(2, []), (3, [1])]"
      3 "[1]" draw_first "[]" "{1, 2, 3}" g_tri "{}"]
  by (simp add: set_pop_def draw_first_def)

text \<open>
  C7 as stated fails on the cycle 1 \<rightarrow> 2 \<rightarrow> 3 \<rightarrow> 1: when 1 is drawn from the frame of 3 the
  stack holds the frames of 1, 2, 3 in this order, and the list returned is 1, 3, 2.
\<close>

theorem drawn_on_stack_counterexample:
  "find_cycle draw_first g_tri = Inr (Some [1, 3, 2]) \<and>
   dfs draw_first g_tri [(1, []), (2, []), (3, [1])] {1, 2, 3} {}
     \<noteq> Inr (Cycle (map fst [(1, []), (2, []), (3, [1])]))"
  by (simp add: find_cycle_def nodes_def g_tri_def successors_def dfs.simps unwind.simps
      set_pop_def draw_first_def)

section \<open>The search keeps its stack a path and returns a cycle of the graph\<close>

lemma successors_Inr:
  assumes "successors g n = Inr ss"
  shows "set ss = {b. (n, b) \<in> edges g}"
proof -
  from assms obtain d where d: "map_of (out_edges g) n = Some d" and ss: "ss = map fst d"
    by (auto simp: successors_def split: option.splits)
  have "set ss = keys d" by (simp add: ss keys_def)
  also have "\<dots> = {b. (n, b) \<in> edges g}"
    by (auto simp: keys_map_of edges_def entry_Some [OF d])
  finally show ?thesis .
qed

lemma successors_total: "n \<in> keys (out_edges g) \<Longrightarrow> \<exists>ss. successors g n = Inr ss"
  by (auto simp: successors_def keys_map_of)

lemma edges_keys: "(a, b) \<in> edges g \<Longrightarrow> a \<in> keys (out_edges g)"
  by (auto simp: edges_def dest: entry_keys)

lemma mirror_edges_keys:
  assumes "mirror_invariant g" "(a, b) \<in> edges g"
  shows "b \<in> keys (out_edges g)"
proof -
  from assms(2) obtain l where "entry (out_edges g) a b = Some l" by (auto simp: edges_def)
  with assms(1) have "entry (in_edges g) b a = Some l" by (simp add: mirror_invariant_def)
  then have "b \<in> keys (in_edges g)" by (rule entry_keys)
  with assms(1) show ?thesis by (simp add: mirror_invariant_def)
qed

lemma set_pop_Inr:
  assumes "set_pop draw xs = Inr (x, rest)"
  shows "set xs = insert x (set rest)"
proof -
  from assms have ne: "xs \<noteq> []" by (auto simp: set_pop_def split: if_splits)
  define i where "i = draw xs mod length xs"
  from ne have i: "i < length xs" by (simp add: i_def)
  from assms ne have x: "x = xs ! i" and rest: "rest = take i xs @ drop (Suc i) xs"
    by (simp_all add: set_pop_def Let_def i_def)
  from i have "xs = take i xs @ xs ! i # drop (Suc i) xs" by (rule id_take_nth_drop)
  then have "set xs = set (take i xs @ xs ! i # drop (Suc i) xs)" by simp
  then show ?thesis by (simp add: x rest)
qed

lemma set_pop_total: "xs \<noteq> [] \<Longrightarrow> \<exists>x rest. set_pop draw xs = Inr (x, rest)"
  by (simp add: set_pop_def Let_def)

lemma dfs_state_pop:
  assumes "dfs_state g (pre @ [(t, ds)]) in_stack"
  shows "dfs_state g pre (in_stack - {t})" and "t \<in> in_stack"
  using assms by (auto simp: dfs_state_def successively_append_iff)

lemma dfs_state_draw:
  assumes "dfs_state g (pre @ [(t, ds)]) in_stack" "set rest \<subseteq> set ds"
  shows "dfs_state g (pre @ [(t, rest)]) in_stack"
  using assms by (auto simp: dfs_state_def successively_append_iff)

lemma dfs_state_push:
  assumes "dfs_state g (pre @ [(t, ds)]) in_stack" "(t, d) \<in> edges g" "d \<notin> in_stack"
    and "\<forall>b \<in> set ss. (d, b) \<in> edges g"
  shows "dfs_state g (pre @ [(t, ds), (d, ss)]) (insert d in_stack)"
  using assms by (auto simp: dfs_state_def successively_append_iff)

lemma successively_suffix:
  "successively R (xs @ ys) \<Longrightarrow> successively R ys"
  by (simp add: successively_append_iff)

lemma dfs_state_cycle:
  assumes st: "dfs_state g (pre @ [(t, ds)]) in_stack" and d: "d \<in> in_stack"
    and e: "(t, d) \<in> edges g"
  shows "\<exists>c. unwind d (pre @ [(t, ds)]) [d] = Inr c \<and> is_cycle g c"
proof -
  let ?stack = "pre @ [(t, ds)]"
  from st d have "d \<in> fst ` set ?stack" by (simp add: dfs_state_def)
  then obtain f where "f \<in> set ?stack" "fst f = d" by blast
  then obtain lower upper where split: "?stack = lower @ f # upper"
    by (auto dest: split_list)
  obtain dd where f: "f = (d, dd)" using \<open>fst f = d\<close> by (cases f) auto
  from st have dist: "distinct (map fst ?stack)" by (simp add: dfs_state_def)
  from st have succ: "successively (\<lambda>a b. (a, b) \<in> edges g) (map fst ?stack)"
    by (simp add: dfs_state_def)
  from dist have dist': "distinct (map fst lower @ d # map fst upper)"
    unfolding split f by simp
  then have notin: "d \<notin> fst ` set upper" by auto
  have c: "unwind d ?stack [d] = Inr (d # rev (map fst upper))"
    unfolding split f using unwind_above [OF notin, of lower dd "[d]"] by simp
  from succ have succ': "successively (\<lambda>a b. (a, b) \<in> edges g) (d # map fst upper)"
    unfolding split f by (simp add: successively_append_iff del: successively_Cons)
  have last_t: "last (d # map fst upper) = t"
  proof -
    have "last (map fst ?stack) = t" by simp
    then show ?thesis unfolding split f by simp
  qed
  have "is_cycle g (d # rev (map fst upper))"
    unfolding is_cycle_def
  proof (intro conjI)
    show "d # rev (map fst upper) \<noteq> []" by simp
    show "distinct (d # rev (map fst upper))" using dist' by auto
    show "successively (\<lambda>a b. (a, b) \<in> edges g) (rev (d # rev (map fst upper)))"
    proof (cases upper rule: rev_cases)
      case Nil
      then show ?thesis by simp
    next
      case (snoc u x)
      with last_t have "fst x = t" by simp
      with succ' e snoc show ?thesis
        by (simp add: successively_append_iff successively_Cons)
    qed
    show "(hd (d # rev (map fst upper)), last (d # rev (map fst upper))) \<in> edges g"
    proof (cases upper)
      case Nil
      with last_t e show ?thesis by simp
    next
      case (Cons u us)
      with succ' show ?thesis by (simp add: last_rev successively_Cons)
    qed
  qed
  with c show ?thesis by blast
qed

lemma dfs_sound:
  "mirror_invariant g \<Longrightarrow> dfs_state g stack in_stack \<Longrightarrow>
     \<exists>r. dfs draw g stack in_stack processed = Inr r \<and> (\<forall>c. r = Cycle c \<longrightarrow> is_cycle g c)"
proof (induction draw g stack in_stack processed rule: dfs.induct)
  case (1 draw g stack in_stack processed)
  show ?case
  proof (cases "stack = []")
    case True
    then show ?thesis by (subst dfs.simps) simp
  next
    case False
    then obtain pre t ds where stack: "stack = pre @ [(t, ds)]"
      by (cases stack rule: rev_cases) auto
    note m = "1.prems"(1)
    note st = "1.prems"(2) [unfolded stack]
    show ?thesis
    proof (cases "ds = []")
      case True
      have "\<exists>r. dfs draw g (butlast stack) (in_stack - {t}) (insert t processed) = Inr r \<and>
          (\<forall>c. r = Cycle c \<longrightarrow> is_cycle g c)"
        by (rule "1.IH"(1) [of t ds]) (use True m dfs_state_pop [OF st] in \<open>simp_all add: stack\<close>)
      with True dfs_state_pop(2) [OF st] show ?thesis
        by (subst dfs.simps) (simp add: stack)
    next
      case ne: False
      then obtain d rest where pop: "set_pop draw ds = Inr (d, rest)"
        using set_pop_total by blast
      note sp = set_pop_Inr [OF pop]
      from st sp have e: "(t, d) \<in> edges g" by (auto simp: dfs_state_def)
      have "set rest \<subseteq> set ds" by (auto simp: sp)
      then have st': "dfs_state g (pre @ [(t, rest)]) in_stack"
        by (rule dfs_state_draw [OF st])
      show ?thesis
      proof (cases "d \<in> in_stack")
        case True
        from dfs_state_cycle [OF st' True e] obtain c where
          "unwind d (pre @ [(t, rest)]) [d] = Inr c" "is_cycle g c" by blast
        with True ne pop show ?thesis
          by (subst dfs.simps) (simp add: stack)
      next
        case nin: False
        show ?thesis
        proof (cases "d \<in> processed")
          case True
          have "\<exists>r. dfs draw g (butlast stack @ [(t, rest)]) in_stack processed = Inr r \<and>
              (\<forall>c. r = Cycle c \<longrightarrow> is_cycle g c)"
            by (rule "1.IH"(3) [of t ds "(d, rest)" d rest])
              (use ne pop nin True st' m in \<open>simp_all add: stack\<close>)
          with True ne pop nin show ?thesis
            by (subst dfs.simps) (simp add: stack)
        next
          case np: False
          from successors_total [OF mirror_edges_keys [OF m e]]
          obtain ss where ss: "successors g d = Inr ss" ..
          have "\<forall>b \<in> set ss. (d, b) \<in> edges g"
            by (simp add: successors_Inr [OF ss])
          then have push: "dfs_state g (pre @ [(t, rest), (d, ss)]) (insert d in_stack)"
            by (rule dfs_state_push [OF st' e nin])
          have "\<exists>r. dfs draw g (butlast stack @ [(t, rest), (d, ss)]) (insert d in_stack) processed
                = Inr r \<and> (\<forall>c. r = Cycle c \<longrightarrow> is_cycle g c)"
            by (rule "1.IH"(2) [of t ds "(d, rest)" d rest ss])
              (use ne pop nin np ss push m in \<open>simp_all add: stack\<close>)
          with np ne pop nin ss show ?thesis
            by (subst dfs.simps) (simp add: stack)
        qed
      qed
    qed
  qed
qed

section \<open>A search that finds no cycle has seen the whole graph\<close>

lemma settled_reach:
  assumes "settled g P" "(s, x) \<in> (edges g)\<^sup>*" "s \<in> P"
  shows "x \<in> P"
  using assms(2,3,1) by (induction rule: rtrancl_induct) (auto simp: settled_def)

lemma settled_insert:
  assumes "settled g P" "\<forall>b. (t, b) \<in> edges g \<longrightarrow> b \<in> P" "t \<notin> P"
  shows "settled g (insert t P)"
proof -
  have "(t, t) \<notin> (edges g)\<^sup>+"
  proof
    assume "(t, t) \<in> (edges g)\<^sup>+"
    then obtain s where "(t, s) \<in> edges g" "(s, t) \<in> (edges g)\<^sup>*"
      by (auto dest: tranclD)
    with assms(2) have "s \<in> P" by simp
    with \<open>(s, t) \<in> (edges g)\<^sup>*\<close> assms(1) have "t \<in> P" by (metis settled_reach)
    with assms(3) show False by simp
  qed
  with assms(1,2) show ?thesis by (auto simp: settled_def)
qed

lemma below_done_mono: "below_done g P fs nxt \<Longrightarrow> P \<subseteq> Q \<Longrightarrow> below_done g Q fs nxt"
  by (induction g P fs nxt rule: below_done.induct) auto

lemma below_done_finish:
  "below_done g P fs (Some t) \<Longrightarrow> below_done g (insert t P) fs None"
proof (cases fs)
  case Nil
  then show ?thesis by simp
next
  case (Cons f fs')
  assume a: "below_done g P fs (Some t)"
  obtain n ds where f: "f = (n, ds)" by (cases f)
  from a have 1: "\<forall>b. (n, b) \<in> edges g \<longrightarrow> b \<in> set ds \<or> b \<in> P \<or> b = t"
    and 2: "below_done g P fs' (Some n)" by (auto simp: Cons f)
  from 2 have "below_done g (insert t P) fs' (Some n)" by (rule below_done_mono) auto
  with 1 show ?thesis by (auto simp: Cons f)
qed

lemma frames_done_pop:
  assumes "frames_done g P (pre @ [(t, [])])"
  shows "frames_done g (insert t P) pre" and "\<forall>b. (t, b) \<in> edges g \<longrightarrow> b \<in> P"
  using assms by (auto simp: frames_done_def intro: below_done_finish)

lemma frames_done_skip:
  assumes "frames_done g P (pre @ [(t, ds)])" "set ds = insert d (set rest)" "d \<in> P"
  shows "frames_done g P (pre @ [(t, rest)])"
  using assms by (auto simp: frames_done_def)

lemma frames_done_push:
  assumes "frames_done g P (pre @ [(t, ds)])" "set ds = insert d (set rest)"
    and "set ss = {b. (d, b) \<in> edges g}"
  shows "frames_done g P (pre @ [(t, rest), (d, ss)])"
proof -
  from assms(1) have 1: "\<forall>b. (t, b) \<in> edges g \<longrightarrow> b \<in> set ds \<or> b \<in> P"
    and 2: "below_done g P (rev pre) (Some t)" by (auto simp: frames_done_def)
  from 1 assms(2) have "\<forall>b. (t, b) \<in> edges g \<longrightarrow> b \<in> set rest \<or> b \<in> P \<or> Some b = Some d"
    by auto
  with 2 assms(3) show ?thesis by (simp add: frames_done_def)
qed

lemma dfs_complete:
  "dfs_state g stack in_stack \<Longrightarrow> settled g P \<Longrightarrow> frames_done g P stack \<Longrightarrow>
   in_stack \<inter> P = {} \<Longrightarrow> dfs draw g stack in_stack P = Inr (Exhausted P') \<Longrightarrow>
   settled g P' \<and> P \<union> in_stack \<subseteq> P'"
proof (induction draw g stack in_stack P rule: dfs.induct)
  case (1 draw g stack in_stack P)
  note st0 = "1.prems"(1) and se = "1.prems"(2) and fd0 = "1.prems"(3)
    and dj = "1.prems"(4) and res = "1.prems"(5)
  show ?case
  proof (cases "stack = []")
    case True
    with res have "P' = P" by (subst (asm) dfs.simps) simp
    moreover from st0 True have "in_stack = {}" by (simp add: dfs_state_def)
    ultimately show ?thesis using se by simp
  next
    case False
    then obtain pre t ds where stack: "stack = pre @ [(t, ds)]"
      by (cases stack rule: rev_cases) auto
    note st = st0 [unfolded stack] and fd = fd0 [unfolded stack]
    have bl: "butlast stack = pre" and la: "(t, ds) = last stack" by (simp_all add: stack)
    show ?thesis
    proof (cases "ds = []")
      case True
      note tin = dfs_state_pop(2) [OF st]
      from res True tin have res': "dfs draw g (butlast stack) (in_stack - {t}) (insert t P)
          = Inr (Exhausted P')"
        by (subst (asm) dfs.simps) (simp add: stack)
      from tin dj have tP: "t \<notin> P" by auto
      from fd True have fd': "frames_done g (insert t P) pre"
        and all: "\<forall>b. (t, b) \<in> edges g \<longrightarrow> b \<in> P"
        by (auto dest: frames_done_pop)
      have se': "settled g (insert t P)" using se all tP by (rule settled_insert)
      have dj': "(in_stack - {t}) \<inter> insert t P = {}" using dj by auto
      have "settled g P' \<and> insert t P \<union> (in_stack - {t}) \<subseteq> P'"
        using False la True tin dfs_state_pop(1) [OF st] se' fd' dj' res'
        unfolding bl by (rule "1.IH"(1) [unfolded bl])
      then show ?thesis by auto
    next
      case ne: False
      from set_pop_total [OF ne] obtain d rest where pop: "set_pop draw ds = Inr (d, rest)"
        by blast
      note sp = set_pop_Inr [OF pop]
      from st sp have e: "(t, d) \<in> edges g" by (auto simp: dfs_state_def)
      have "set rest \<subseteq> set ds" by (auto simp: sp)
      then have st': "dfs_state g (pre @ [(t, rest)]) in_stack"
        by (rule dfs_state_draw [OF st])
      have din: "d \<notin> in_stack"
      proof
        assume "d \<in> in_stack"
        with res ne pop show False
          by (subst (asm) dfs.simps) (simp add: stack split: sum.splits)
      qed
      show ?thesis
      proof (cases "d \<in> P")
        case True
        from res ne pop din True have res': "dfs draw g (butlast stack @ [(t, rest)]) in_stack P
            = Inr (Exhausted P')"
          by (subst (asm) dfs.simps) (simp add: stack)
        have fd': "frames_done g P (pre @ [(t, rest)])"
          using fd sp True by (rule frames_done_skip)
        have nn: "\<not> d \<notin> P" using True by simp
        show ?thesis
          using False la ne pop refl din nn st' se fd' dj res'
          unfolding bl by (rule "1.IH"(3) [unfolded bl])
      next
        case np: False
        from res ne pop din np obtain ss where ss: "successors g d = Inr ss"
          and res': "dfs draw g (butlast stack @ [(t, rest), (d, ss)]) (insert d in_stack) P
            = Inr (Exhausted P')"
          by (subst (asm) dfs.simps) (simp add: stack split: sum.splits)
        note sss = successors_Inr [OF ss]
        have "\<forall>b \<in> set ss. (d, b) \<in> edges g" by (simp add: sss)
        then have push: "dfs_state g (pre @ [(t, rest), (d, ss)]) (insert d in_stack)"
          by (rule dfs_state_push [OF st' e din])
        have fd': "frames_done g P (pre @ [(t, rest), (d, ss)])"
          using fd sp sss by (rule frames_done_push)
        have dj': "insert d in_stack \<inter> P = {}" using dj np by auto
        have "settled g P' \<and> P \<union> insert d in_stack \<subseteq> P'"
          using False la ne pop refl din np ss push se fd' dj' res'
          unfolding bl by (rule "1.IH"(2) [unfolded bl])
        then show ?thesis by auto
      qed
    qed
  qed
qed

lemma dfs_state_root:
  assumes "successors g node = Inr ss"
  shows "dfs_state g [(node, ss)] {node}" and "frames_done g P [(node, ss)]"
  using successors_Inr [OF assms] by (simp_all add: dfs_state_def frames_done_def)

lemma find_from_sound:
  "mirror_invariant g \<Longrightarrow> set ns \<subseteq> keys (out_edges g) \<Longrightarrow>
   \<exists>r. find_from draw g ns P = Inr r \<and> (\<forall>c. r = Some c \<longrightarrow> is_cycle g c)"
proof (induction ns arbitrary: P)
  case Nil
  then show ?case by simp
next
  case (Cons node ns)
  from Cons.prems have sub: "set ns \<subseteq> keys (out_edges g)" and node: "node \<in> keys (out_edges g)"
    by auto
  show ?case
  proof (cases "node \<in> P")
    case True
    with Cons.IH [OF Cons.prems(1) sub, of P] show ?thesis by simp
  next
    case False
    from successors_total [OF node] obtain ss where ss: "successors g node = Inr ss" ..
    from dfs_sound [OF Cons.prems(1) dfs_state_root(1) [OF ss], of draw P]
    obtain r where r: "dfs draw g [(node, ss)] {node} P = Inr r"
      and cyc: "\<forall>c. r = Cycle c \<longrightarrow> is_cycle g c" by blast
    show ?thesis
    proof (cases r)
      case (Cycle c)
      with False ss r cyc show ?thesis by simp
    next
      case (Exhausted P')
      with False ss r Cons.IH [OF Cons.prems(1) sub, of P'] show ?thesis by simp
    qed
  qed
qed

lemma find_from_complete:
  "settled g P \<Longrightarrow> find_from draw g ns P = Inr None \<Longrightarrow>
   \<exists>P'. settled g P' \<and> P \<union> set ns \<subseteq> P'"
proof (induction ns arbitrary: P)
  case Nil
  then show ?case by auto
next
  case (Cons node ns)
  show ?case
  proof (cases "node \<in> P")
    case True
    with Cons.prems(2) have "find_from draw g ns P = Inr None" by simp
    from Cons.IH [OF Cons.prems(1) this] True show ?thesis by auto
  next
    case False
    with Cons.prems(2) obtain ss P1 where ss: "successors g node = Inr ss"
      and r: "dfs draw g [(node, ss)] {node} P = Inr (Exhausted P1)"
      and rest: "find_from draw g ns P1 = Inr None"
      by (auto split: sum.splits search.splits)
    have "{node} \<inter> P = {}" using False by simp
    from dfs_complete [OF dfs_state_root(1) [OF ss] Cons.prems(1) dfs_state_root(2) [OF ss] this r]
    have 1: "settled g P1" and 2: "P \<union> {node} \<subseteq> P1" by auto
    from Cons.IH [OF 1 rest] 2 show ?thesis by auto
  qed
qed

lemma find_cycle_sound:
  assumes "mirror_invariant g"
  shows "\<exists>r. find_cycle draw g = Inr r \<and> (\<forall>c. r = Some c \<longrightarrow> is_cycle g c)"
  unfolding find_cycle_def
  by (rule find_from_sound [OF assms]) (simp add: nodes_def keys_def)

lemma find_cycle_None_acyclic:
  assumes "find_cycle draw g = Inr None"
  shows "acyclic (edges g)"
proof -
  have "settled g {}" by (simp add: settled_def)
  from find_from_complete [OF this assms [unfolded find_cycle_def]]
  obtain P where P: "settled g P" and all: "set (nodes g) \<subseteq> P" by auto
  show ?thesis
    unfolding acyclic_def
  proof (intro allI notI)
    fix x assume x: "(x, x) \<in> (edges g)\<^sup>+"
    then obtain y where "(x, y) \<in> edges g" by (auto dest: tranclD)
    then have "x \<in> keys (out_edges g)" by (rule edges_keys)
    with all have "x \<in> P" by (auto simp: nodes_def keys_def)
    with P x show False by (simp add: settled_def)
  qed
qed

lemma successively_reach:
  "successively (\<lambda>a b. (a, b) \<in> r) xs \<Longrightarrow> xs \<noteq> [] \<Longrightarrow> (hd xs, last xs) \<in> r\<^sup>*"
proof (induction xs)
  case Nil
  then show ?case by simp
next
  case (Cons x xs)
  show ?case
  proof (cases xs)
    case Nil
    then show ?thesis by simp
  next
    case (Cons y ys)
    with Cons.prems have "(x, y) \<in> r" and "successively (\<lambda>a b. (a, b) \<in> r) xs"
      by simp_all
    with Cons.IH Cons have "(y, last xs) \<in> r\<^sup>*" by simp
    with \<open>(x, y) \<in> r\<close> Cons show ?thesis by (simp add: converse_rtrancl_into_rtrancl)
  qed
qed

lemma is_cycle_not_acyclic:
  assumes "is_cycle g c"
  shows "\<not> acyclic (edges g)"
proof -
  from assms have ne: "c \<noteq> []" and s: "successively (\<lambda>a b. (a, b) \<in> edges g) (rev c)"
    and e: "(hd c, last c) \<in> edges g" by (simp_all add: is_cycle_def)
  from successively_reach [OF s] ne have "(last c, hd c) \<in> (edges g)\<^sup>*"
    by (simp add: hd_rev last_rev)
  with e have "(hd c, hd c) \<in> (edges g)\<^sup>+" by (rule rtrancl_into_trancl2)
  then show ?thesis by (auto simp: acyclic_def)
qed

lemma acyclic_find_cycle:
  assumes "mirror_invariant g" "acyclic (edges g)"
  shows "find_cycle draw g = Inr None"
proof -
  from find_cycle_sound [OF assms(1), of draw] obtain r where
    r: "find_cycle draw g = Inr r" and c: "\<forall>c. r = Some c \<longrightarrow> is_cycle g c" by blast
  show ?thesis
  proof (cases r)
    case None
    with r show ?thesis by simp
  next
    case (Some c')
    with c have "is_cycle g c'" by simp
    with assms(2) show ?thesis by (simp add: is_cycle_not_acyclic)
  qed
qed

section \<open>Replacing a cycle removes more edges than it adds\<close>

lemma remove_edge_ok:
  assumes "mirror_invariant g" "a \<in> keys (out_edges g)" "b \<in> keys (out_edges g)"
  shows "\<exists>g'. remove_edge g a b = Inr g' \<and> mirror_invariant g' \<and>
     keys (out_edges g') = keys (out_edges g) \<and> edges g' = edges g - {(a, b)}"
proof -
  from assms have "b \<in> keys (in_edges g)" by (simp add: mirror_invariant_def)
  with assms(2) obtain g' where g': "remove_edge g a b = Inr g'"
    by (auto simp: remove_edge_def keys_map_of)
  from mirror_remove_edge [OF assms(1), of a b] have "mirror_invariant g'"
    by (simp add: g' state_after_def)
  moreover have "edges g' = edges g - {(a, b)}"
    by (auto simp: edges_def remove_edge_Inr(1) [OF g'])
  ultimately show ?thesis using g' remove_edge_Inr(3) [OF g'] by simp
qed

lemma add_edge_ok:
  assumes "mirror_invariant g" "a \<in> keys (out_edges g)" "b \<in> keys (out_edges g)"
  shows "\<exists>g'. add_edge g a b l = Inr g' \<and> mirror_invariant g' \<and>
     keys (out_edges g') = keys (out_edges g) \<and> edges g' = insert (a, b) (edges g)"
proof -
  from assms have "b \<in> keys (in_edges g)" by (simp add: mirror_invariant_def)
  with assms(2) obtain g' where g': "add_edge g a b l = Inr g'"
    by (auto simp: add_edge_def keys_map_of)
  from mirror_add_edge [OF assms(1), of a b l] have "mirror_invariant g'"
    by (simp add: g' state_after_def)
  moreover have "edges g' = insert (a, b) (edges g)"
    by (auto simp: edges_def add_edge_Inr(1) [OF g'])
  ultimately show ?thesis using g' add_edge_Inr(3) [OF g'] by simp
qed

lemma remove_edges_from_ok:
  "mirror_invariant g \<Longrightarrow> node \<in> keys (out_edges g) \<Longrightarrow> set ds \<subseteq> keys (out_edges g) \<Longrightarrow>
   \<exists>g'. remove_edges_from g node ds = Inr g' \<and> mirror_invariant g' \<and>
     keys (out_edges g') = keys (out_edges g) \<and> edges g' = edges g - {node} \<times> set ds"
proof (induction ds arbitrary: g)
  case Nil
  then show ?case by simp
next
  case (Cons d ds)
  from Cons.prems have d: "d \<in> keys (out_edges g)" by simp
  from remove_edge_ok [OF Cons.prems(1,2) d] obtain g1 where
    g1: "remove_edge g node d = Inr g1" and m1: "mirror_invariant g1"
    and k1: "keys (out_edges g1) = keys (out_edges g)" and e1: "edges g1 = edges g - {(node, d)}"
    by blast
  from Cons.prems k1 have "node \<in> keys (out_edges g1)" "set ds \<subseteq> keys (out_edges g1)"
    by auto
  from Cons.IH [OF m1 this] obtain g' where
    "remove_edges_from g1 node ds = Inr g'" "mirror_invariant g'"
    "keys (out_edges g') = keys (out_edges g1)" "edges g' = edges g1 - {node} \<times> set ds"
    by blast
  with g1 k1 e1 show ?case by auto
qed

lemma remove_edges_among_ok:
  "mirror_invariant g \<Longrightarrow> set ns \<subseteq> keys (out_edges g) \<Longrightarrow> set cycle \<subseteq> keys (out_edges g) \<Longrightarrow>
   \<exists>g'. remove_edges_among g ns cycle = Inr g' \<and> mirror_invariant g' \<and>
     keys (out_edges g') = keys (out_edges g) \<and> edges g' = edges g - set ns \<times> set cycle"
proof (induction ns arbitrary: g)
  case Nil
  then show ?case by simp
next
  case (Cons node ns)
  from Cons.prems have n: "node \<in> keys (out_edges g)" by simp
  from remove_edges_from_ok [OF Cons.prems(1) n Cons.prems(3)] obtain g1 where
    g1: "remove_edges_from g node cycle = Inr g1" and m1: "mirror_invariant g1"
    and k1: "keys (out_edges g1) = keys (out_edges g)"
    and e1: "edges g1 = edges g - {node} \<times> set cycle"
    by blast
  from Cons.prems k1 have "set ns \<subseteq> keys (out_edges g1)" "set cycle \<subseteq> keys (out_edges g1)"
    by auto
  from Cons.IH [OF m1 this] obtain g' where
    "remove_edges_among g1 ns cycle = Inr g'" "mirror_invariant g'"
    "keys (out_edges g') = keys (out_edges g1)" "edges g' = edges g1 - set ns \<times> set cycle"
    by blast
  with g1 k1 e1 show ?case by auto
qed

lemma add_links_ok:
  "mirror_invariant g \<Longrightarrow> prev \<in> keys (out_edges g) \<Longrightarrow> set ns \<subseteq> keys (out_edges g) \<Longrightarrow>
   \<exists>g'. add_links g prev ns = Inr g' \<and> mirror_invariant g' \<and>
     keys (out_edges g') = keys (out_edges g) \<and> edges g' = edges g \<union> set (zip ns (prev # ns))"
proof (induction ns arbitrary: g prev)
  case Nil
  then show ?case by simp
next
  case (Cons node ns)
  from Cons.prems have n: "node \<in> keys (out_edges g)" by simp
  from add_edge_ok [OF Cons.prems(1) n Cons.prems(2), of True] obtain g1 where
    g1: "add_edge g node prev True = Inr g1" and m1: "mirror_invariant g1"
    and k1: "keys (out_edges g1) = keys (out_edges g)"
    and e1: "edges g1 = insert (node, prev) (edges g)"
    by blast
  from Cons.prems k1 have "node \<in> keys (out_edges g1)" "set ns \<subseteq> keys (out_edges g1)"
    by auto
  from Cons.IH [OF m1 this] obtain g' where
    "add_links g1 node ns = Inr g'" "mirror_invariant g'"
    "keys (out_edges g') = keys (out_edges g1)"
    "edges g' = edges g1 \<union> set (zip ns (node # ns))"
    by blast
  with g1 k1 e1 show ?case by auto
qed

lemma remove_loops_ok:
  "mirror_invariant g \<Longrightarrow> set ns \<subseteq> keys (out_edges g) \<Longrightarrow>
   \<exists>g'. remove_loops g ns = Inr g' \<and> mirror_invariant g' \<and>
     keys (out_edges g') = keys (out_edges g) \<and> edges g' = edges g - {(n, n) |n. n \<in> set ns}"
proof (induction ns arbitrary: g)
  case Nil
  then show ?case by simp
next
  case (Cons node ns)
  from Cons.prems have n: "node \<in> keys (out_edges g)" by simp
  from remove_edge_ok [OF Cons.prems(1) n n] obtain g1 where
    g1: "remove_edge g node node = Inr g1" and m1: "mirror_invariant g1"
    and k1: "keys (out_edges g1) = keys (out_edges g)"
    and e1: "edges g1 = edges g - {(node, node)}"
    by blast
  from Cons.prems k1 have "set ns \<subseteq> keys (out_edges g1)" by auto
  from Cons.IH [OF m1 this] obtain g' where
    "remove_loops g1 ns = Inr g'" "mirror_invariant g'"
    "keys (out_edges g') = keys (out_edges g1)"
    "edges g' = edges g1 - {(n, n) |n. n \<in> set ns}"
    by blast
  with g1 k1 e1 show ?case by auto
qed

lemma finite_edges: "finite (edges g)"
proof -
  have "edges g \<subseteq> keys (out_edges g) \<times> (\<Union>(a, d) \<in> set (out_edges g). keys d)"
  proof
    fix p assume p: "p \<in> edges g"
    obtain a b where ab: "p = (a, b)" by (cases p)
    from p obtain d where d: "map_of (out_edges g) a = Some d" and b: "map_of d b \<noteq> None"
      by (auto simp: ab edges_def entry_def split: option.splits)
    from d have "(a, d) \<in> set (out_edges g)" by (rule map_of_SomeD)
    moreover from b have "b \<in> keys d" by (simp add: keys_map_of)
    moreover from d have "a \<in> keys (out_edges g)" by (rule map_of_keys)
    ultimately show "p \<in> keys (out_edges g) \<times> (\<Union>(a, d) \<in> set (out_edges g). keys d)"
      unfolding ab by blast
  qed
  moreover have "finite (keys (out_edges g) \<times> (\<Union>(a, d) \<in> set (out_edges g). keys d))"
    by (intro finite_cartesian_product finite_UN_I) (auto simp: keys_def)
  ultimately show ?thesis by (rule finite_subset)
qed

lemma successively_next:
  "successively R xs \<Longrightarrow> x \<in> set (butlast xs) \<Longrightarrow> \<exists>y \<in> set xs. R x y"
proof (induction xs)
  case Nil
  then show ?case by simp
next
  case (Cons a xs)
  show ?case
  proof (cases xs)
    case Nil
    with Cons.prems show ?thesis by simp
  next
    case (Cons b ys)
    show ?thesis
    proof (cases "x = a")
      case True
      with Cons Cons.prems(1) show ?thesis by auto
    next
      case False
      with Cons Cons.prems have "successively R xs" "x \<in> set (butlast xs)" by auto
      from Cons.IH [OF this] show ?thesis by auto
    qed
  qed
qed

lemma is_cycle_out_edge:
  assumes "is_cycle g c" "x \<in> set c"
  shows "\<exists>y \<in> set c. (x, y) \<in> edges g"
proof (cases "x = hd c")
  case True
  from assms(1) have "c \<noteq> []" "(hd c, last c) \<in> edges g" by (simp_all add: is_cycle_def)
  with True show ?thesis by auto
next
  case False
  from assms(1) have ne: "c \<noteq> []" and s: "successively (\<lambda>a b. (a, b) \<in> edges g) (rev c)"
    by (simp_all add: is_cycle_def)
  from ne have "rev c = rev (tl c) @ [hd c]" by (cases c) simp_all
  then have "butlast (rev c) = rev (tl c)" by simp
  moreover from False assms(2) ne have "x \<in> set (tl c)" by (cases c) auto
  ultimately have "x \<in> set (butlast (rev c))" by simp
  from successively_next [OF s this] show ?thesis by simp
qed

lemma is_cycle_card:
  assumes "is_cycle g c"
  shows "length c \<le> card (edges g \<inter> set c \<times> set c)"
proof -
  let ?X = "edges g \<inter> set c \<times> set c"
  have fin: "finite ?X" using finite_edges by blast
  have "set c \<subseteq> fst ` ?X"
  proof
    fix x assume x: "x \<in> set c"
    from is_cycle_out_edge [OF assms x] obtain y where "y \<in> set c" "(x, y) \<in> edges g" by blast
    with x have "(x, y) \<in> ?X" by simp
    then show "x \<in> fst ` ?X" by force
  qed
  then have "card (set c) \<le> card (fst ` ?X)" by (intro card_mono finite_imageI fin)
  also have "\<dots> \<le> card ?X" by (rule card_image_le [OF fin])
  finally show ?thesis using assms by (simp add: is_cycle_def distinct_card)
qed

lemma replace_cycle_ok:
  assumes m: "mirror_invariant g" and c: "is_cycle g c"
  shows "\<exists>g'. replace_cycle key g c = Inr g' \<and> mirror_invariant g' \<and>
     card (edges g') < card (edges g)"
proof -
  have sub: "set c \<subseteq> keys (out_edges g)"
  proof
    fix x assume "x \<in> set c"
    from is_cycle_out_edge [OF c this] show "x \<in> keys (out_edges g)"
      by (auto dest: edges_keys)
  qed
  from remove_edges_among_ok [OF m sub sub] obtain g1 where
    g1: "remove_edges_among g c c = Inr g1" and m1: "mirror_invariant g1"
    and k1: "keys (out_edges g1) = keys (out_edges g)"
    and e1: "edges g1 = edges g - set c \<times> set c"
    by blast
  from c have ne: "c \<noteq> []" by (simp add: is_cycle_def)
  then have "sort_key key c \<noteq> []" by (metis length_0_conv length_sort)
  then obtain prev ns where srt: "sort_key key c = prev # ns" by (cases "sort_key key c") auto
  have "set (prev # ns) = set c" unfolding srt [symmetric] by simp
  with sub k1 have p: "prev \<in> keys (out_edges g1)" and nsub: "set ns \<subseteq> keys (out_edges g1)"
    by auto
  from add_links_ok [OF m1 p nsub] obtain g' where
    g': "add_links g1 prev ns = Inr g'" and m': "mirror_invariant g'"
    and e': "edges g' = edges g1 \<union> set (zip ns (prev # ns))"
    by blast
  have len: "Suc (length ns) = length c"
    using arg_cong [OF srt, of length] by simp
  have fin: "finite (edges g)" by (rule finite_edges)
  have "card (edges g') \<le> card (edges g - set c \<times> set c) + card (set (zip ns (prev # ns)))"
    unfolding e' e1 by (rule card_Un_le)
  also have "card (set (zip ns (prev # ns))) \<le> length ns"
    using card_length [of "zip ns (prev # ns)"] by simp
  also have "card (edges g - set c \<times> set c) = card (edges g) - card (edges g \<inter> set c \<times> set c)"
    by (rule card_Diff_subset_Int) (use fin in blast)
  also have "card (edges g) - card (edges g \<inter> set c \<times> set c) + length ns < card (edges g)"
  proof -
    have "card (edges g \<inter> set c \<times> set c) \<le> card (edges g)"
      by (rule card_mono [OF fin]) blast
    with is_cycle_card [OF c] len show ?thesis by linarith
  qed
  finally have "card (edges g') < card (edges g)" by simp
  with g1 srt g' m' show ?thesis by (simp add: replace_cycle_def)
qed

lemma replace_loop_ok:
  "mirror_invariant g \<Longrightarrow>
   \<exists>g'. replace_loop draw key g = Some (Inr g') \<and> mirror_invariant g' \<and> acyclic (edges g')"
proof (induction "card (edges g)" arbitrary: g rule: less_induct)
  case less
  from find_cycle_sound [OF less.prems, of draw] obtain r where
    r: "find_cycle draw g = Inr r" and cyc: "\<forall>c. r = Some c \<longrightarrow> is_cycle g c" by blast
  show ?case
  proof (cases r)
    case None
    with r have "acyclic (edges g)" by (simp add: find_cycle_None_acyclic)
    with None r less.prems show ?thesis by (subst replace_loop.simps) simp
  next
    case (Some c)
    with cyc have c: "is_cycle g c" by simp
    then have ne: "c \<noteq> []" by (simp add: is_cycle_def)
    from replace_cycle_ok [OF less.prems c, of key] obtain g1 where
      g1: "replace_cycle key g c = Inr g1" and m1: "mirror_invariant g1"
      and less1: "card (edges g1) < card (edges g)" by blast
    from less.hyps [OF less1 m1] obtain g' where
      "replace_loop draw key g1 = Some (Inr g')" "mirror_invariant g'" "acyclic (edges g')"
      by blast
    with Some r ne g1 show ?thesis by (subst replace_loop.simps) simp
  qed
qed

lemma replace_cycles_ok:
  assumes "mirror_invariant g"
  shows "\<exists>g'. replace_cycles draw key g = Some (Inr g') \<and> mirror_invariant g' \<and>
     acyclic (edges g')"
proof -
  have "set (nodes g) \<subseteq> keys (out_edges g)" by (simp add: nodes_def keys_def)
  from remove_loops_ok [OF assms this] obtain g1 where
    "remove_self_references g = Inr g1" "mirror_invariant g1"
    by (auto simp: remove_self_references_def)
  with replace_loop_ok [of g1 draw key] show ?thesis by (simp add: replace_cycles_def)
qed

lemma g_tri_mirror: "mirror_invariant g_tri"
  by (auto simp: mirror_invariant_def g_tri_def entry_def keys_def split: if_splits)

text \<open>
  C3. On every graph (a graph is finite by construction) and for every rank function
  \<open>key\<close>, \<^verbatim>\<open>replace_cycles\<close> returns, whatever elements the search draws from its sets
  (\<open>draw\<close>); the graph it leaves has no cycle, and \<^verbatim>\<open>_find_cycle\<close> finds none in it,
  again whatever it draws (\<open>draw'\<close>).
\<close>

theorem replace_cycles_terminates:
  assumes "mirror_invariant g"
  shows "\<exists>g'. replace_cycles draw key g = Some (Inr g') \<and>
           (\<forall>draw'. find_cycle draw' g' = Inr None) \<and> acyclic (edges g')"
proof -
  from replace_cycles_ok [OF assms, of draw key] obtain g' where
    "replace_cycles draw key g = Some (Inr g')" "mirror_invariant g'" "acyclic (edges g')"
    by blast
  then show ?thesis by (auto intro: acyclic_find_cycle)
qed

theorem replace_cycles_terminates_witness:
  "mirror_invariant g_tri \<and>
   (\<exists>g'. replace_cycles draw_first int g_tri = Some (Inr g') \<and>
      (\<forall>draw'. find_cycle draw' g' = Inr None) \<and> acyclic (edges g'))"
  using replace_cycles_terminates [OF g_tri_mirror, of draw_first int] g_tri_mirror by simp

text \<open>
  On the cycle 1 \<rightarrow> 2 \<rightarrow> 3 \<rightarrow> 1 with the rank of a node its number: the three edges go, and
  the links 2 \<rightarrow> 1 and 3 \<rightarrow> 2 come.
\<close>

lemma replace_cycles_g_tri:
  "replace_cycles draw_first int g_tri =
   Some (Inr \<lparr>out_edges = [(1, []), (2, [(1, True)]), (3, [(2, True)])],
             in_edges = [(1, [(2, True)]), (2, [(3, True)]), (3, [])]\<rparr>)"
  by code_simp

section \<open>The parts of the sort\<close>

lemma predecessors_Inr:
  assumes "mirror_invariant g" "predecessors g n = Inr ps"
  shows "set ps = {a. (a, n) \<in> edges g}"
proof -
  from assms(2) obtain d where d: "map_of (in_edges g) n = Some d" and ps: "ps = map fst d"
    by (auto simp: predecessors_def split: option.splits)
  have "set ps = keys d" by (simp add: ps keys_def)
  also have "\<dots> = {a. entry (in_edges g) n a \<noteq> None}"
    by (auto simp: keys_map_of entry_Some [OF d])
  also have "\<dots> = {a. (a, n) \<in> edges g}"
  proof -
    have "entry (in_edges g) n a \<noteq> None \<longleftrightarrow> entry (out_edges g) a n \<noteq> None" for a
      using assms(1) unfolding mirror_invariant_def by (metis not_Some_eq)
    then show ?thesis by (simp add: edges_def)
  qed
  finally show ?thesis .
qed

lemma predecessors_total:
  assumes "mirror_invariant g" "n \<in> keys (out_edges g)"
  shows "\<exists>ps. predecessors g n = Inr ps \<and> (ps = [] \<longleftrightarrow> \<not> has_pred g n)"
proof -
  from assms have "n \<in> keys (in_edges g)" by (simp add: mirror_invariant_def)
  then obtain ps where ps: "predecessors g n = Inr ps"
    by (auto simp: predecessors_def keys_map_of)
  from predecessors_Inr [OF assms(1) ps] have "ps = [] \<longleftrightarrow> \<not> has_pred g n"
    by (auto simp: has_pred_def simp flip: set_empty)
  with ps show ?thesis by simp
qed

lemma enqueue_ok:
  "mirror_invariant g \<Longrightarrow> set ds \<subseteq> keys (out_edges g) \<Longrightarrow>
   \<exists>p'. enqueue g ds p = Inr p' \<and> set p' = set p \<union> {d \<in> set ds. \<not> has_pred g d} \<and>
     (distinct p \<longrightarrow> distinct p')"
proof (induction ds arbitrary: p)
  case Nil
  then show ?case by simp
next
  case (Cons d ds)
  from Cons.prems have d: "d \<in> keys (out_edges g)" and sub: "set ds \<subseteq> keys (out_edges g)"
    by auto
  from predecessors_total [OF Cons.prems(1) d] obtain ps where
    ps: "predecessors g d = Inr ps" and e: "ps = [] \<longleftrightarrow> \<not> has_pred g d" by blast
  define p1 where "p1 = (if ps = [] \<and> d \<notin> set p then p @ [d] else p)"
  from Cons.IH [OF Cons.prems(1) sub, of p1] obtain p' where
    p': "enqueue g ds p1 = Inr p'"
    and s: "set p' = set p1 \<union> {d \<in> set ds. \<not> has_pred g d}"
    and di: "distinct p1 \<longrightarrow> distinct p'" by blast
  have "enqueue g (d # ds) p = Inr p'" using ps p' by (simp add: p1_def)
  moreover have "set p' = set p \<union> {x \<in> set (d # ds). \<not> has_pred g x}"
    using s e by (auto simp: p1_def)
  moreover have "distinct p \<longrightarrow> distinct p'" using di by (auto simp: p1_def)
  ultimately show ?case by blast
qed

lemma ready_ok:
  "mirror_invariant g \<Longrightarrow> set ns \<subseteq> keys (out_edges g) \<Longrightarrow>
   ready g ns = Inr (filter (\<lambda>n. \<not> has_pred g n) ns)"
proof (induction ns)
  case Nil
  then show ?case by simp
next
  case (Cons n ns)
  from Cons.prems have n: "n \<in> keys (out_edges g)" and sub: "set ns \<subseteq> keys (out_edges g)"
    by auto
  from predecessors_total [OF Cons.prems(1) n] obtain ps where
    ps: "predecessors g n = Inr ps" and e: "ps = [] \<longleftrightarrow> \<not> has_pred g n" by blast
  from Cons.IH [OF Cons.prems(1) sub] ps e show ?case by simp
qed

lemma copy_ok:
  assumes "is_graph g" "mirror_invariant g"
  shows "\<exists>c. copy g = Inr c \<and> mirror_invariant c \<and>
     keys (out_edges c) = keys (out_edges g) \<and> edges c = edges g"
proof -
  have sub: "set (nodes g) \<subseteq> keys (out_edges g)" "set (nodes g) \<subseteq> keys (in_edges g)"
    using assms(2) by (auto simp: nodes_def keys_def mirror_invariant_def)
  define empty :: "('a, 'b) graph" where "empty = Graph"
  from update_from_Inr [OF sub assms(1), of empty] obtain c where
    c: "update empty g = Inr c"
    and k: "keys (out_edges c) = keys (out_edges empty) \<union> set (nodes g)"
    and e: "\<And>a b. entry (out_edges c) a b =
        (if a \<in> set (nodes g) \<and> entry (out_edges g) a b \<noteq> None
         then entry (out_edges g) a b else entry (out_edges empty) a b)"
    unfolding update_def by blast
  from mirror_copy [OF assms(2,1)] c have m: "mirror_invariant c"
    by (simp add: copy_def empty_def)
  have n: "set (nodes g) = keys (out_edges g)" by (simp add: nodes_def keys_def)
  have en: "entry (out_edges empty) a b = None" for a b
    by (simp add: empty_def Graph_def entry_def)
  have "entry (out_edges c) a b = entry (out_edges g) a b" for a b
  proof (cases "entry (out_edges g) a b")
    case None
    then show ?thesis by (simp add: e en)
  next
    case (Some l)
    then have "a \<in> keys (out_edges g)" by (rule entry_keys)
    with Some show ?thesis by (simp add: e n)
  qed
  then have "edges c = edges g" by (simp add: edges_def)
  moreover have "keys (out_edges empty) = {}" by (simp add: empty_def Graph_def keys_def)
  then have "keys (out_edges c) = keys (out_edges g)"
    by (simp add: k n)
  ultimately show ?thesis using c m by (simp add: copy_def empty_def)
qed

lemma sorted_from_True:
  "set xs \<subseteq> keys (out_edges g) \<Longrightarrow> no_dep_before g xs \<Longrightarrow>
   (\<forall>x \<in> set xs. \<forall>b. (x, b) \<in> edges g \<longrightarrow> b \<in> V \<union> set xs) \<Longrightarrow>
   sorted_from g xs V = Inr True"
proof (induction xs arbitrary: V)
  case Nil
  then show ?case by simp
next
  case (Cons x xs)
  from Cons.prems(1) have x: "x \<in> keys (out_edges g)" by simp
  from successors_total [OF x] obtain ss where ss: "successors g x = Inr ss" ..
  note sss = successors_Inr [OF ss]
  have all: "list_all (\<lambda>d. d \<in> insert x V) ss"
    unfolding list_all_iff
  proof
    fix d assume "d \<in> set ss"
    with sss have e: "(x, d) \<in> edges g" by simp
    with Cons.prems(3) have "d \<in> V \<union> set (x # xs)" by simp
    moreover from e Cons.prems(2) have "d \<notin> set xs" by auto
    ultimately show "d \<in> insert x V" by auto
  qed
  have "sorted_from g xs (insert x V) = Inr True"
    using Cons.prems by (intro Cons.IH) auto
  with ss all show ?case by simp
qed

lemma precedes_no_dep:
  "no_dep_before g xs \<Longrightarrow> (a, b) \<in> edges g \<Longrightarrow> a \<in> set xs \<Longrightarrow> b \<in> set xs \<Longrightarrow> a \<noteq> b \<Longrightarrow>
   precedes b a xs"
  by (induction xs) auto

lemma precedes_filter:
  "precedes b a xs \<Longrightarrow> P a \<Longrightarrow> P b \<Longrightarrow> precedes b a (filter P xs)"
  by (induction xs) (auto split: if_splits)

lemma precedes_nth:
  "distinct xs \<Longrightarrow> precedes b a xs \<longleftrightarrow> (\<exists>i j. i < j \<and> j < length xs \<and> xs ! i = b \<and> xs ! j = a)"
proof (induction xs)
  case Nil
  then show ?case by simp
next
  case (Cons x xs)
  show ?case
  proof (cases "x = b")
    case True
    have "a \<in> set xs \<longleftrightarrow> (\<exists>i j. i < j \<and> j < length (x # xs) \<and> (x # xs) ! i = b \<and> (x # xs) ! j = a)"
    proof
      assume "a \<in> set xs"
      then obtain k where "k < length xs" "xs ! k = a" by (auto simp: in_set_conv_nth)
      with True show "\<exists>i j. i < j \<and> j < length (x # xs) \<and> (x # xs) ! i = b \<and> (x # xs) ! j = a"
        by (intro exI [of _ 0] exI [of _ "Suc k"]) simp
    next
      assume "\<exists>i j. i < j \<and> j < length (x # xs) \<and> (x # xs) ! i = b \<and> (x # xs) ! j = a"
      then obtain i j where "i < j" "j < length (x # xs)" "(x # xs) ! j = a" by blast
      then show "a \<in> set xs" by (cases j) auto
    qed
    with True show ?thesis by simp
  next
    case False
    from Cons.prems have d: "distinct xs" by simp
    have "(\<exists>i j. i < j \<and> j < length xs \<and> xs ! i = b \<and> xs ! j = a) \<longleftrightarrow>
        (\<exists>i j. i < j \<and> j < length (x # xs) \<and> (x # xs) ! i = b \<and> (x # xs) ! j = a)"
    proof
      assume "\<exists>i j. i < j \<and> j < length xs \<and> xs ! i = b \<and> xs ! j = a"
      then obtain i j where "i < j" "j < length xs" "xs ! i = b" "xs ! j = a" by blast
      then show "\<exists>i j. i < j \<and> j < length (x # xs) \<and> (x # xs) ! i = b \<and> (x # xs) ! j = a"
        by (intro exI [of _ "Suc i"] exI [of _ "Suc j"]) simp
    next
      assume "\<exists>i j. i < j \<and> j < length (x # xs) \<and> (x # xs) ! i = b \<and> (x # xs) ! j = a"
      then obtain i j where ij: "i < j" "j < length (x # xs)" "(x # xs) ! i = b" "(x # xs) ! j = a"
        by blast
      from ij(3) False obtain i' where i': "i = Suc i'" by (cases i) auto
      from ij(1) obtain j' where j': "j = Suc j'" by (cases j) auto
      from ij i' j' show "\<exists>i j. i < j \<and> j < length xs \<and> xs ! i = b \<and> xs ! j = a"
        by (intro exI [of _ i'] exI [of _ j']) simp
    qed
    with False Cons.IH [OF d] show ?thesis by simp
  qed
qed

section \<open>The loop of the sort\<close>

lemma remove_node_ok:
  assumes "mirror_invariant g" "node \<in> keys (out_edges g)"
  shows "\<exists>g'. remove_node g node = Inr g' \<and> mirror_invariant g' \<and>
     keys (out_edges g') = keys (out_edges g) - {node} \<and>
     edges g' = {(a, b) \<in> edges g. a \<noteq> node \<and> b \<noteq> node}"
proof (cases "remove_node g node")
  case (Inl p)
  with remove_node_Inl [OF assms(1), of node "fst p" "snd p"] assms(2) show ?thesis by simp
next
  case (Inr g')
  note R = remove_node_Inr [OF assms(1) Inr]
  from mirror_remove_node [OF assms(1), of node] have "mirror_invariant g'"
    by (simp add: Inr state_after_def)
  moreover have "edges g' = {(a, b) \<in> edges g. a \<noteq> node \<and> b \<noteq> node}"
    by (auto simp: edges_def R(3))
  ultimately show ?thesis using Inr R(1) by simp
qed

lemma view_unchanged:
  assumes "mirror_invariant g" "\<not> has_pred g node"
  shows "view_after_remove g node ss = ss"
proof (cases "map_of (in_edges g) node")
  case None
  then show ?thesis by (simp add: view_after_remove_def)
next
  case (Some inc)
  have "node \<notin> keys inc"
  proof
    assume "node \<in> keys inc"
    then obtain l where "entry (in_edges g) node node = Some l"
      by (auto simp: keys_map_of entry_Some [OF Some])
    with assms(1) have "entry (out_edges g) node node = Some l"
      by (simp add: mirror_invariant_def)
    then have "(node, node) \<in> edges g" by (simp add: edges_def)
    with assms(2) show False by (auto simp: has_pred_def)
  qed
  with Some show ?thesis by (simp add: view_after_remove_def)
qed

lemma sort_step:
  assumes inv: "sort_inv g remaining pending result" and ne: "pending \<noteq> []"
    and node_def: "node = last (sort_key key pending)"
  shows "\<exists>ss remaining' pending'.
     successors remaining node = Inr ss \<and>
     remove_node remaining node = Inr remaining' \<and>
     enqueue remaining' (view_after_remove remaining node ss) (butlast (sort_key key pending))
       = Inr pending' \<and>
     sort_inv g remaining' pending' (result @ [node])"
proof -
  let ?sp = "sort_key key pending"
  from inv have m: "mirror_invariant remaining"
    and k: "keys (out_edges remaining) = keys (out_edges g) - set result"
    and e: "edges remaining = {(a, b) \<in> edges g. a \<notin> set result \<and> b \<notin> set result}"
    and dp: "distinct pending"
    and sp: "set pending = {n \<in> keys (out_edges remaining). \<not> has_pred remaining n}"
    and dr: "distinct result" and sr: "set result \<subseteq> keys (out_edges g)"
    and pc: "\<forall>(a, b) \<in> edges g. b \<in> set result \<longrightarrow> a \<in> set result"
    and nd: "no_dep_before g (rev result)"
    and nc: "\<forall>n \<in> set result. (n, n) \<notin> (edges g)\<^sup>+"
    by (simp_all add: sort_inv_def)
  from ne have spne: "?sp \<noteq> []" by (metis length_0_conv length_sort)
  then have split: "?sp = butlast ?sp @ [node]" by (simp add: node_def)
  have "distinct ?sp" using dp by simp
  with split have dbl: "distinct (butlast ?sp)" and nbl: "node \<notin> set (butlast ?sp)"
    by (metis distinct_butlast, metis distinct_append disjoint_iff list.set_intros(1))
  have "set ?sp = set pending" by simp
  with split have sbl: "set (butlast ?sp) = set pending - {node}" and np: "node \<in> set pending"
    using nbl by (metis Diff_insert_absorb Un_insert_right append_Nil2 list.simps(15)
        set_append, metis in_set_conv_decomp)
  from np sp have nk: "node \<in> keys (out_edges remaining)" and nh: "\<not> has_pred remaining node"
    by auto
  from successors_total [OF nk] obtain ss where ss: "successors remaining node = Inr ss" ..
  note sss = successors_Inr [OF ss]
  from remove_node_ok [OF m nk] obtain r' where
    r': "remove_node remaining node = Inr r'" and m': "mirror_invariant r'"
    and k': "keys (out_edges r') = keys (out_edges remaining) - {node}"
    and e': "edges r' = {(a, b) \<in> edges remaining. a \<noteq> node \<and> b \<noteq> node}"
    by blast
  have view: "view_after_remove remaining node ss = ss" using m nh by (rule view_unchanged)
  have sub: "set ss \<subseteq> keys (out_edges r')"
  proof
    fix b assume "b \<in> set ss"
    with sss have eb: "(node, b) \<in> edges remaining" by simp
    then have "b \<in> keys (out_edges remaining)" by (rule mirror_edges_keys [OF m])
    moreover from eb nh have "b \<noteq> node" by (auto simp: has_pred_def)
    ultimately show "b \<in> keys (out_edges r')" by (simp add: k')
  qed
  from enqueue_ok [OF m' sub, of "butlast ?sp"] obtain p' where
    p': "enqueue r' ss (butlast ?sp) = Inr p'"
    and sp': "set p' = set (butlast ?sp) \<union> {d \<in> set ss. \<not> has_pred r' d}"
    and dp': "distinct p'" using dbl by blast
  have nr: "node \<notin> set result" using nk k by simp
  have ng: "node \<in> keys (out_edges g)" using nk k by simp
  have no_in: "a \<in> set result" if "(a, node) \<in> edges g" for a
  proof (rule ccontr)
    assume "a \<notin> set result"
    with that nr have "(a, node) \<in> edges remaining" by (simp add: e)
    with nh show False by (auto simp: has_pred_def)
  qed
  have "sort_inv g r' p' (result @ [node])"
    unfolding sort_inv_def
  proof (intro conjI)
    show "mirror_invariant r'" by (rule m')
    show "keys (out_edges r') = keys (out_edges g) - set (result @ [node])"
      by (auto simp: k' k)
    show "edges r' = {(a, b) \<in> edges g. a \<notin> set (result @ [node]) \<and> b \<notin> set (result @ [node])}"
      by (auto simp: e' e)
    show "distinct p'" by (rule dp')
    show "set p' = {n \<in> keys (out_edges r'). \<not> has_pred r' n}"
    proof (intro set_eqI iffI)
      fix n assume "n \<in> set p'"
      then consider "n \<in> set pending" "n \<noteq> node" | "n \<in> set ss" "\<not> has_pred r' n"
        by (auto simp: sp' sbl)
      then show "n \<in> {n \<in> keys (out_edges r'). \<not> has_pred r' n}"
      proof cases
        case 1
        with sp have "n \<in> keys (out_edges remaining)" "\<not> has_pred remaining n" by auto
        with 1 show ?thesis by (auto simp: k' has_pred_def e')
      next
        case 2
        with sub show ?thesis by auto
      qed
    next
      fix n assume "n \<in> {n \<in> keys (out_edges r'). \<not> has_pred r' n}"
      then have n: "n \<in> keys (out_edges remaining)" "n \<noteq> node" and h: "\<not> has_pred r' n"
        by (auto simp: k')
      show "n \<in> set p'"
      proof (cases "has_pred remaining n")
        case False
        with n sp have "n \<in> set pending" by simp
        with n show ?thesis by (simp add: sp' sbl)
      next
        case True
        then obtain a where a: "(a, n) \<in> edges remaining" by (auto simp: has_pred_def)
        with h n have "a = node" by (auto simp: has_pred_def e')
        with a sss have "n \<in> set ss" by simp
        with h show ?thesis by (simp add: sp')
      qed
    qed
    show "distinct (result @ [node])" using dr nr by simp
    show "set (result @ [node]) \<subseteq> keys (out_edges g)" using sr ng by simp
    show "\<forall>(a, b) \<in> edges g. b \<in> set (result @ [node]) \<longrightarrow> a \<in> set (result @ [node])"
      using pc no_in by auto
    show "no_dep_before g (rev (result @ [node]))"
    proof -
      have "(node, b) \<notin> edges g" if "b \<in> set result" for b
      proof
        assume "(node, b) \<in> edges g"
        with pc that have "node \<in> set result" by auto
        with nr show False by simp
      qed
      with nd show ?thesis by simp
    qed
    show "\<forall>n \<in> set (result @ [node]). (n, n) \<notin> (edges g)\<^sup>+"
    proof -
      have "(node, node) \<notin> (edges g)\<^sup>+"
      proof
        assume "(node, node) \<in> (edges g)\<^sup>+"
        then obtain a where 1: "(node, a) \<in> (edges g)\<^sup>*" and 2: "(a, node) \<in> edges g"
          by (auto dest: tranclD2)
        from 2 1 have "(a, a) \<in> (edges g)\<^sup>+" by (rule rtrancl_into_trancl2)
        with nc have "a \<notin> set result" by auto
        with no_in [OF 2] show False by simp
      qed
      with nc show ?thesis by simp
    qed
  qed
  with ss r' p' view show ?thesis by simp
qed

lemma sort_loop_ok:
  "sort_inv g remaining pending result \<Longrightarrow>
   \<exists>remaining' result'. sort_loop key remaining pending result = Inr (remaining', result') \<and>
     sort_inv g remaining' [] result'"
proof (induction key remaining pending result rule: sort_loop.induct)
  case (1 key remaining pending result)
  show ?case
  proof (cases "pending = []")
    case True
    with "1.prems" show ?thesis by (subst sort_loop.simps) simp
  next
    case False
    define node where "node = last (sort_key key pending)"
    from sort_step [OF "1.prems" False node_def]
    obtain ss r' p' where ss: "successors remaining node = Inr ss"
      and r': "remove_node remaining node = Inr r'"
      and p': "enqueue r' (view_after_remove remaining node ss) (butlast (sort_key key pending))
         = Inr p'"
      and inv': "sort_inv g r' p' (result @ [node])" by blast
    have "\<exists>remaining' result'. sort_loop key r' p' (result @ [node]) = Inr (remaining', result') \<and>
        sort_inv g remaining' [] result'"
      using False refl node_def ss r' p' inv'
      by (rule "1.IH" [of "sort_key key pending" node ss r' p'])
    with False ss r' p' show ?thesis
      by (subst sort_loop.simps) (simp add: Let_def node_def)
  qed
qed

section \<open>The sort as a whole\<close>

lemma has_edge_edges: "has_edge g a b \<longleftrightarrow> (a, b) \<in> edges g"
  by (auto simp: has_edge_def edges_def entry_def keys_map_of split: option.splits)

lemma nodes_keys: "set (nodes g) = keys (out_edges g)"
  by (simp add: nodes_def keys_def)

lemma nodes_empty: "nodes g = [] \<longleftrightarrow> keys (out_edges g) = {}"
  by (simp add: nodes_def keys_def)

lemma distinct_nodes: "is_graph g \<Longrightarrow> distinct (nodes g)"
  by (simp add: is_graph_def is_index_def is_dict_def nodes_def)

lemma sort_inv_start:
  assumes "is_graph g" "mirror_invariant g"
  shows "\<exists>remaining. copy g = Inr remaining \<and>
     sort_inv g remaining (filter (\<lambda>n. \<not> has_pred g n) (nodes g)) []"
proof -
  from copy_ok [OF assms] obtain c where c: "copy g = Inr c" and m: "mirror_invariant c"
    and k: "keys (out_edges c) = keys (out_edges g)" and e: "edges c = edges g" by blast
  have "has_pred c = has_pred g" by (simp add: has_pred_def fun_eq_iff e)
  then have "sort_inv g c (filter (\<lambda>n. \<not> has_pred g n) (nodes g)) []"
    using m k e distinct_nodes [OF assms(1)]
    by (auto simp: sort_inv_def nodes_keys)
  with c show ?thesis by blast
qed

lemma sort_inv_end_acyclic:
  assumes "acyclic (edges g)" "sort_inv g remaining [] result"
  shows "keys (out_edges remaining) = {}"
proof (rule ccontr)
  assume ne: "keys (out_edges remaining) \<noteq> {}"
  from assms(2) have e: "edges remaining \<subseteq> edges g"
    and p: "\<forall>n \<in> keys (out_edges remaining). has_pred remaining n"
    by (auto simp: sort_inv_def)
  have "wf (edges g)" using finite_edges assms(1) by (rule finite_acyclic_wf)
  moreover from ne obtain x where "x \<in> keys (out_edges remaining)" by blast
  ultimately obtain z where z: "z \<in> keys (out_edges remaining)"
    and min: "\<And>y. (y, z) \<in> edges g \<Longrightarrow> y \<notin> keys (out_edges remaining)"
    by (rule wfE_min) blast
  from p z obtain a where a: "(a, z) \<in> edges remaining" by (auto simp: has_pred_def)
  then have "a \<in> keys (out_edges remaining)" by (rule edges_keys)
  moreover from a e have "(a, z) \<in> edges g" by blast
  ultimately show False using min by blast
qed

lemma sort_inv_end_cyclic:
  assumes "\<not> acyclic (edges g)" "sort_inv g remaining [] result"
  shows "keys (out_edges remaining) \<noteq> {}"
proof -
  from assms(1) obtain x where x: "(x, x) \<in> (edges g)\<^sup>+" by (auto simp: acyclic_def)
  then obtain y where "(x, y) \<in> edges g" by (auto dest: tranclD)
  then have "x \<in> keys (out_edges g)" by (rule edges_keys)
  moreover from assms(2) x have "x \<notin> set result" by (auto simp: sort_inv_def)
  moreover from assms(2) have "keys (out_edges remaining) = keys (out_edges g) - set result"
    by (simp add: sort_inv_def)
  ultimately show ?thesis by auto
qed

lemma sort_order:
  assumes g: "is_graph g" and m: "mirror_invariant g"
  shows "if acyclic (edges g)
    then \<exists>L. distinct L \<and> set L = set (nodes g) \<and> no_dep_before g L \<and>
      (\<forall>mk target graph ns. arguments target graph = Inr (g, ns) \<longrightarrow> mk ns = key \<longrightarrow>
         topological_sort mk target graph = Inr (filter (\<lambda>n. n \<in> set ns) L))
    else (\<forall>mk target graph ns. arguments target graph = Inr (g, ns) \<longrightarrow> mk ns = key \<longrightarrow>
         topological_sort mk target graph = Inl AssertionError)"
proof -
  from sort_inv_start [OF g m] obtain r0 where r0: "copy g = Inr r0"
    and inv0: "sort_inv g r0 (filter (\<lambda>n. \<not> has_pred g n) (nodes g)) []" by blast
  have rdy: "ready g (nodes g) = Inr (filter (\<lambda>n. \<not> has_pred g n) (nodes g))"
    by (rule ready_ok [OF m]) (simp add: nodes_keys)
  from sort_loop_ok [OF inv0, of key] obtain rf res where
    loop: "sort_loop key r0 (filter (\<lambda>n. \<not> has_pred g n) (nodes g)) [] = Inr (rf, res)"
    and inv: "sort_inv g rf [] res" by blast
  show ?thesis
  proof (cases "acyclic (edges g)")
    case True
    from sort_inv_end_acyclic [OF True inv] have empty: "nodes rf = []" by (simp add: nodes_empty)
    from inv sort_inv_end_acyclic [OF True inv] have d: "distinct res"
      and s: "set res = keys (out_edges g)" and nd: "no_dep_before g (rev res)"
      by (auto simp: sort_inv_def)
    have "sorted_from g (rev res) {} = Inr True"
    proof (rule sorted_from_True)
      show "set (rev res) \<subseteq> keys (out_edges g)" by (simp add: s)
      show "no_dep_before g (rev res)" by (rule nd)
      show "\<forall>x \<in> set (rev res). \<forall>b. (x, b) \<in> edges g \<longrightarrow> b \<in> {} \<union> set (rev res)"
        using mirror_edges_keys [OF m] by (auto simp: s)
    qed
    then have ok: "is_topologically_sorted (rev res) g = Inr True"
      by (simp add: is_topologically_sorted_def)
    have "topological_sort mk target graph = Inr (filter (\<lambda>n. n \<in> set ns) (rev res))"
      if "arguments target graph = Inr (g, ns)" "mk ns = key" for mk target graph ns
      using that r0 rdy loop empty ok by (simp add: topological_sort_def)
    moreover have "distinct (rev res)" "set (rev res) = set (nodes g)"
      using d s by (simp_all add: nodes_keys)
    ultimately show ?thesis using True nd by (intro if_P [THEN iffD2]) blast+
  next
    case False
    from sort_inv_end_cyclic [OF False inv] have "nodes rf \<noteq> []" by (simp add: nodes_empty)
    then have "topological_sort mk target graph = Inl AssertionError"
      if "arguments target graph = Inr (g, ns)" "mk ns = key" for mk target graph ns
      using that r0 rdy loop by (simp add: topological_sort_def)
    with False show ?thesis by simp
  qed
qed

lemma sort_acyclic:
  assumes "is_graph g" "mirror_invariant g" "acyclic (edges g)"
  obtains L where "distinct L" "set L = set (nodes g)" "no_dep_before g L"
    and "\<And>mk target graph ns. arguments target graph = Inr (g, ns) \<Longrightarrow> mk ns = key \<Longrightarrow>
         topological_sort mk target graph = Inr (filter (\<lambda>n. n \<in> set ns) L)"
  using sort_order [OF assms(1,2), of key] assms(3) by auto

lemma sort_cyclic:
  assumes "is_graph g" "mirror_invariant g" "\<not> acyclic (edges g)"
    and "arguments target graph = Inr (g, ns)"
  shows "topological_sort mk target graph = Inl AssertionError"
  using sort_order [OF assms(1,2), of "mk ns"] assms(3,4) by auto

lemma arguments_graph: "arguments (GraphTarget g) None = Inr (g, nodes g)"
  by (simp add: arguments_def)

lemma arguments_list: "arguments (ListTarget ns) (Some g) = Inr (g, ns)"
  by (simp add: arguments_def)

lemma edge_not_loop: "acyclic (edges g) \<Longrightarrow> (a, b) \<in> edges g \<Longrightarrow> a \<noteq> b"
  by (auto simp: acyclic_def)

section \<open>Facts about the example graphs and the position rank\<close>

lemma g_chain_is_graph: "is_graph g_chain"
  by (simp add: is_graph_def is_index_def is_dict_def g_chain_def)

lemma g_chain_mirror: "mirror_invariant g_chain"
  by (auto simp: mirror_invariant_def g_chain_def entry_def keys_def split: if_splits)

lemma g_chain_acyclic: "acyclic (edges g_chain)"
proof (rule find_cycle_None_acyclic)
  show "find_cycle draw_first g_chain = Inr None" by code_simp
qed

lemma g_tri_is_graph: "is_graph g_tri"
  by (simp add: is_graph_def is_index_def is_dict_def g_tri_def)

lemma g_tri_cyclic: "\<not> acyclic (edges g_tri)"
proof -
  have "find_cycle draw_first g_tri = Inr (Some [1, 3, 2])" by code_simp
  with find_cycle_sound [OF g_tri_mirror, of draw_first] have "is_cycle g_tri [1, 3, 2]" by simp
  then show ?thesis by (rule is_cycle_not_acyclic)
qed

lemma g_single_is_graph: "is_graph g_single"
  by (simp add: is_graph_def is_index_def is_dict_def g_single_def)

lemma g_single_mirror: "mirror_invariant g_single"
  by (auto simp: mirror_invariant_def g_single_def entry_def keys_def split: if_splits)

lemma g_single_edges: "edges g_single = {}"
  by (auto simp: edges_def g_single_def entry_def split: if_splits)

lemma g_single_acyclic: "acyclic (edges g_single)"
  by (simp add: g_single_edges acyclic_def)

lemma g_free_is_graph: "is_graph g_free"
  by (simp add: is_graph_def is_index_def is_dict_def g_free_def)

lemma g_free_mirror: "mirror_invariant g_free"
  by (auto simp: mirror_invariant_def g_free_def entry_def keys_def split: if_splits)

lemma g_free_edges: "edges g_free = {}"
  by (auto simp: edges_def g_free_def entry_def split: if_splits)

lemma position_nth: "distinct ns \<Longrightarrow> i < length ns \<Longrightarrow> position ns (ns ! i) = i"
proof (induction ns arbitrary: i)
  case Nil
  then show ?case by simp
next
  case (Cons x ns)
  show ?case
  proof (cases i)
    case 0
    then show ?thesis by simp
  next
    case (Suc j)
    with Cons.prems have "j < length ns" "ns ! j \<noteq> x" "distinct ns" by auto
    with Cons.IH [of j] Suc show ?thesis by auto
  qed
qed

lemma ranks_by_position_key: "ranks_by_position position_key"
  by (simp add: ranks_by_position_def position_key_def position_nth)

lemma ranks_sorted:
  assumes "ranks_by_position mk" "distinct ns"
  shows "sorted (map (mk ns) ns)"
  unfolding sorted_iff_nth_mono
proof (intro allI impI)
  fix i j assume "i \<le> j" "j < length (map (mk ns) ns)"
  with assms show "map (mk ns) ns ! i \<le> map (mk ns) ns ! j"
    by (simp add: ranks_by_position_def)
qed

lemma sort_loop_edge_free:
  "mirror_invariant remaining \<Longrightarrow> edges remaining = {} \<Longrightarrow>
   keys (out_edges remaining) = set pending \<Longrightarrow> distinct pending \<Longrightarrow>
   sorted (map key pending) \<Longrightarrow>
   \<exists>rf. sort_loop key remaining pending result = Inr (rf, result @ rev pending) \<and>
     nodes rf = []"
proof (induction pending arbitrary: remaining result rule: rev_induct)
  case Nil
  then show ?case by (subst sort_loop.simps) (simp add: nodes_empty)
next
  case (snoc x p)
  note m = snoc.prems(1) and e = snoc.prems(2) and k = snoc.prems(3)
  have srt: "sort_key key (p @ [x]) = p @ [x]"
    using snoc.prems(5) by (rule sort_key_id_if_sorted)
  from k have xk: "x \<in> keys (out_edges remaining)" by simp
  from successors_total [OF xk] obtain ss where ss: "successors remaining x = Inr ss" ..
  from successors_Inr [OF ss] e have ss_nil: "ss = []" by simp
  from remove_node_ok [OF m xk] obtain r' where
    r': "remove_node remaining x = Inr r'" and m': "mirror_invariant r'"
    and k': "keys (out_edges r') = keys (out_edges remaining) - {x}"
    and e': "edges r' = {(a, b) \<in> edges remaining. a \<noteq> x \<and> b \<noteq> x}"
    by blast
  have view: "view_after_remove remaining x [] = []"
    by (simp add: view_after_remove_def split: option.splits)
  from snoc.prems(4) k k' have k'': "keys (out_edges r') = set p" by auto
  from snoc.prems(5) have "sorted (map key p)" by (simp add: sorted_append)
  with snoc.IH [OF m' _ k'', of "result @ [x]"] e e' snoc.prems(4)
  obtain rf where "sort_loop key r' p (result @ [x]) = Inr (rf, (result @ [x]) @ rev p)"
    and "nodes rf = []" by auto
  with ss ss_nil r' view show ?case
    by (subst sort_loop.simps) (simp add: srt Let_def)
qed

lemma sort_g_single: "topological_sort position_key (ListTarget [1, 2]) (Some g_single) = Inr [1]"
  by code_simp

lemma sort_g_chain: "topological_sort position_key (GraphTarget g_chain) None = Inr [1, 2, 3, 4]"
  by code_simp

lemma sort_g_chain_projection:
  "topological_sort position_key (ListTarget [3, 5, 1]) (Some g_chain) = Inr [1, 3]"
  by code_simp

lemma sort_g_tri: "topological_sort position_key (GraphTarget g_tri) None = Inl AssertionError"
  by code_simp

section \<open>The claims about the sort\<close>

text \<open>
  In what follows \<open>mk\<close> stands for \<^verbatim>\<open>sort_key_from_iter\<close>; the theorems hold for every such
  function unless they say otherwise. \<open>GraphTarget g\<close> with \<open>None\<close> is the call
  \<^verbatim>\<open>topological_sort(g)\<close>, \<open>ListTarget ns\<close> with \<open>Some g\<close> the call
  \<^verbatim>\<open>topological_sort(ns, graph=g)\<close>.

  C1. On an acyclic graph with an edge \<open>a \<rightarrow> b\<close>, the sort of the whole graph returns a list
  in which \<open>b\<close> comes before \<open>a\<close>, and so does the sort of a list \<open>ns\<close> that holds both.
  The list returned has no duplicates, so "before" is a matter of the two positions.
\<close>

theorem sort_places_destination_first:
  assumes "is_graph g" and "mirror_invariant g" and "acyclic (edges g)"
    and "has_edge g a b"
  shows "(\<exists>r. topological_sort mk (GraphTarget g) None = Inr r \<and> distinct r \<and> precedes b a r) \<and>
    (a \<in> set ns \<and> b \<in> set ns \<longrightarrow>
       (\<exists>r. topological_sort mk (ListTarget ns) (Some g) = Inr r \<and> distinct r \<and>
          precedes b a r))"
proof -
  from assms(4) have e: "(a, b) \<in> edges g" by (simp add: has_edge_edges)
  then have ne: "a \<noteq> b" by (rule edge_not_loop [OF assms(3)])
  from e have a: "a \<in> set (nodes g)" by (auto simp: nodes_keys dest: edges_keys)
  from e have b: "b \<in> set (nodes g)" by (auto simp: nodes_keys dest: mirror_edges_keys [OF assms(2)])
  have 1: "\<exists>r. topological_sort mk target graph = Inr r \<and> distinct r \<and> precedes b a r"
    if args: "arguments target graph = Inr (g, rs)" and "a \<in> set rs" "b \<in> set rs"
    for target graph rs
  proof -
    obtain L where L: "distinct L" "set L = set (nodes g)" "no_dep_before g L"
      and r: "topological_sort mk target graph = Inr (filter (\<lambda>n. n \<in> set rs) L)"
      using sort_acyclic [OF assms(1-3), of "mk rs"] args by metis
    from L a b have "precedes b a L" by (intro precedes_no_dep [OF L(3) e]) (simp_all add: ne)
    then have "precedes b a (filter (\<lambda>n. n \<in> set rs) L)"
      using that(2,3) by (rule precedes_filter)
    with r L(1) show ?thesis by simp
  qed
  from 1 [OF arguments_graph a b] 1 [OF arguments_list] show ?thesis by blast
qed

theorem sort_places_destination_first_witness:
  "has_edge g_chain 2 1 \<and>
   (\<exists>r. topological_sort position_key (GraphTarget g_chain) None = Inr r \<and> distinct r \<and>
      precedes 1 2 r) \<and>
   (\<exists>r. topological_sort position_key (ListTarget [4, 1, 2]) (Some g_chain) = Inr r \<and>
      distinct r \<and> precedes 1 2 r)"
proof -
  have h: "has_edge g_chain 2 1" by (simp add: has_edge_def g_chain_def keys_def)
  from sort_places_destination_first [OF g_chain_is_graph g_chain_mirror g_chain_acyclic h,
      of position_key "[4, 1, 2]"] h
  show ?thesis by simp
qed

text \<open>
  C2 (as amended). On an acyclic graph the list returned has no duplicates and holds
  exactly the requested nodes that are nodes of the graph: all nodes of the graph when
  the graph alone is given, and the nodes of the list that are in the graph when a list
  is given.
\<close>

theorem sort_returns_requested_graph_nodes:
  assumes "is_graph g" and "mirror_invariant g" and "acyclic (edges g)"
  shows "(\<exists>r. topological_sort mk (GraphTarget g) None = Inr r \<and> distinct r \<and>
            set r = set (nodes g)) \<and>
         (\<exists>r. topological_sort mk (ListTarget ns) (Some g) = Inr r \<and> distinct r \<and>
            set r = set ns \<inter> set (nodes g))"
proof -
  have 1: "\<exists>r. topological_sort mk target graph = Inr r \<and> distinct r \<and>
      set r = set rs \<inter> set (nodes g)"
    if args: "arguments target graph = Inr (g, rs)" for target graph rs
  proof -
    obtain L where L: "distinct L" "set L = set (nodes g)"
      and r: "topological_sort mk target graph = Inr (filter (\<lambda>n. n \<in> set rs) L)"
      using sort_acyclic [OF assms(1-3), of "mk rs"] args by metis
    from L show ?thesis by (auto simp: r)
  qed
  from 1 [OF arguments_graph] 1 [OF arguments_list, of ns] show ?thesis by simp
qed

theorem sort_returns_requested_graph_nodes_witness:
  "(\<exists>r. topological_sort position_key (GraphTarget g_chain) None = Inr r \<and> distinct r \<and>
      set r = set (nodes g_chain)) \<and>
   (\<exists>r. topological_sort position_key (ListTarget [3, 5, 1]) (Some g_chain) = Inr r \<and>
      distinct r \<and> set r = set [3, 5, 1] \<inter> set (nodes g_chain))"
  using sort_returns_requested_graph_nodes [OF g_chain_is_graph g_chain_mirror g_chain_acyclic,
      of position_key "[3, 5, 1]"]
  by simp

text \<open>
  C2 as stated fails for a requested node that the graph does not have: the graph with
  the single node 1 is acyclic, the nodes 1 and 2 are requested, and the list returned
  is 1 alone.
\<close>

theorem sort_returns_requested_graph_nodes_counterexample:
  "acyclic (edges g_single) \<and>
   topological_sort position_key (ListTarget [1, 2]) (Some g_single) = Inr [1]"
  by (rule conjI [OF g_single_acyclic sort_g_single])

text \<open>
  C4. When the graph has no edge and \<^verbatim>\<open>sort_key_from_iter\<close> ranks the nodes of a sequence
  by their position in it, the sort of the graph returns its nodes in the order in
  which they were added.
\<close>

theorem sort_of_edge_free_graph:
  assumes "is_graph g" and "mirror_invariant g" and "edges g = {}"
    and "ranks_by_position sort_key_from_iter"
  shows "topological_sort sort_key_from_iter (GraphTarget g) None = Inr (nodes g)"
proof -
  from copy_ok [OF assms(1,2)] obtain c where c: "copy g = Inr c" and m: "mirror_invariant c"
    and k: "keys (out_edges c) = keys (out_edges g)" and e: "edges c = edges g" by blast
  have np: "\<not> has_pred g n" for n by (simp add: has_pred_def assms(3))
  have rdy: "ready g (nodes g) = Inr (nodes g)"
    using ready_ok [OF assms(2), of "nodes g"] by (simp add: nodes_keys np)
  have d: "distinct (nodes g)" by (rule distinct_nodes [OF assms(1)])
  from sort_loop_edge_free [OF m, of "nodes g" "sort_key_from_iter (nodes g)" "[]"]
    ranks_sorted [OF assms(4) d] d
  obtain rf where loop: "sort_loop (sort_key_from_iter (nodes g)) c (nodes g) []
      = Inr (rf, rev (nodes g))" and rf: "nodes rf = []"
    by (auto simp: e assms(3) k nodes_keys)
  have nd: "no_dep_before g xs" for xs by (induction xs) (simp_all add: assms(3))
  have "sorted_from g (nodes g) {} = Inr True"
    by (rule sorted_from_True) (simp_all add: nodes_keys nd assms(3))
  then have ok: "is_topologically_sorted (nodes g) g = Inr True"
    by (simp add: is_topologically_sorted_def)
  show ?thesis
    using c rdy loop rf ok by (simp add: topological_sort_def arguments_def)
qed

theorem sort_of_edge_free_graph_witness:
  "edges g_free = {} \<and> ranks_by_position (position_key :: nat list \<Rightarrow> nat \<Rightarrow> int) \<and>
   topological_sort position_key (GraphTarget g_free) None = Inr [7, 3, 9, 1]"
  using sort_of_edge_free_graph [OF g_free_is_graph g_free_mirror g_free_edges
      ranks_by_position_key]
  by (simp add: g_free_edges ranks_by_position_key) (simp add: nodes_def g_free_def)

text \<open>
  C6. A graph with a cycle makes the sort raise \<^verbatim>\<open>AssertionError\<close>, in either calling
  mode; on a graph without one the sort returns a list.
\<close>

theorem sort_fails_on_cycle:
  assumes "is_graph g" and "mirror_invariant g"
  shows "if acyclic (edges g)
    then (\<exists>r. topological_sort mk (GraphTarget g) None = Inr r) \<and>
         (\<exists>r. topological_sort mk (ListTarget ns) (Some g) = Inr r)
    else topological_sort mk (GraphTarget g) None = Inl AssertionError \<and>
         topological_sort mk (ListTarget ns) (Some g) = Inl AssertionError"
proof (cases "acyclic (edges g)")
  case True
  have "\<exists>r. topological_sort mk target graph = Inr r"
    if args: "arguments target graph = Inr (g, rs)" for target graph rs
    using sort_acyclic [OF assms True, of "mk rs"] args by metis
  from this [OF arguments_graph] this [OF arguments_list, of ns] True show ?thesis by simp
next
  case False
  with sort_cyclic [OF assms False arguments_graph] sort_cyclic [OF assms False arguments_list]
  show ?thesis by simp
qed

theorem sort_fails_on_cycle_witness:
  "((\<exists>r. topological_sort position_key (GraphTarget g_chain) None = Inr r) \<and>
    (\<exists>r. topological_sort position_key (ListTarget [3, 5, 1]) (Some g_chain) = Inr r)) \<and>
   topological_sort position_key (GraphTarget g_tri) None = Inl AssertionError \<and>
   topological_sort position_key (ListTarget [1]) (Some g_tri) = Inl AssertionError"
  using sort_fails_on_cycle [OF g_chain_is_graph g_chain_mirror, of position_key "[3, 5, 1]"]
    sort_fails_on_cycle [OF g_tri_is_graph g_tri_mirror, of position_key "[1]"]
  by (simp add: g_chain_acyclic g_tri_cyclic)

text \<open>
  C10. A requested node \<open>n\<close> that the graph does not have is left out of the result and
  raises nothing: the call returns the very list it returns when the nodes outside the
  graph are taken off the request and the ranks are kept.
\<close>

theorem absent_node_is_omitted:
  assumes "is_graph g" and "mirror_invariant g" and "acyclic (edges g)"
    and "n \<in> set ns" and "n \<notin> set (nodes g)"
  shows "\<exists>r. topological_sort mk (ListTarget ns) (Some g) = Inr r \<and> n \<notin> set r \<and>
     topological_sort (\<lambda>_. mk ns) (ListTarget (filter (\<lambda>m. m \<in> set (nodes g)) ns)) (Some g)
       = Inr r"
proof -
  obtain L where L: "set L = set (nodes g)"
    and r: "\<And>mk' target graph rs. arguments target graph = Inr (g, rs) \<Longrightarrow> mk' rs = mk ns \<Longrightarrow>
         topological_sort mk' target graph = Inr (filter (\<lambda>n. n \<in> set rs) L)"
    using sort_acyclic [OF assms(1-3), of "mk ns"] by metis
  let ?present = "filter (\<lambda>m. m \<in> set (nodes g)) ns"
  have 1: "topological_sort mk (ListTarget ns) (Some g) = Inr (filter (\<lambda>n. n \<in> set ns) L)"
    by (rule r [of "ListTarget ns" "Some g" ns mk]) (simp_all add: arguments_list)
  have 2: "topological_sort (\<lambda>_. mk ns) (ListTarget ?present) (Some g)
      = Inr (filter (\<lambda>n. n \<in> set ?present) L)"
    by (rule r [of "ListTarget ?present" "Some g" ?present "\<lambda>_. mk ns"])
      (simp_all add: arguments_list)
  have "filter (\<lambda>n. n \<in> set ?present) L = filter (\<lambda>n. n \<in> set ns) L"
    by (rule filter_cong) (simp_all add: L)
  with 1 2 assms(5) L show ?thesis by simp
qed

theorem absent_node_is_omitted_witness:
  "5 \<in> set [3, 5, 1 :: nat] \<and> 5 \<notin> set (nodes g_chain) \<and>
   (\<exists>r. topological_sort position_key (ListTarget [3, 5, 1]) (Some g_chain) = Inr r \<and>
      5 \<notin> set r \<and>
      topological_sort (\<lambda>_. position_key [3, 5, 1])
        (ListTarget (filter (\<lambda>m. m \<in> set (nodes g_chain)) [3, 5, 1])) (Some g_chain) = Inr r)"
proof -
  have a: "5 \<in> set [3, 5, 1 :: nat]" by simp
  have b: "5 \<notin> set (nodes g_chain)" by (simp add: nodes_def g_chain_def)
  from absent_node_is_omitted [OF g_chain_is_graph g_chain_mirror g_chain_acyclic a b,
      of position_key] a b
  show ?thesis by simp
qed

section \<open>The sort writes only to what it allocates\<close>

lemma unchanged_below_refl: "unchanged_below n s s"
  by (simp add: unchanged_below_def)

lemma unchanged_below_trans:
  "unchanged_below n s s' \<Longrightarrow> unchanged_below n s' s'' \<Longrightarrow> unchanged_below n s s''"
  by (simp add: unchanged_below_def)

lemma setdefault_st_frame:
  assumes "setdefault_st s outer node = (outer', s')" "n \<le> next_ref s"
  shows "unchanged_below n s s'" and "graphs s' = graphs s" and "next_ref s \<le> next_ref s'"
    and "snd ` set outer' \<subseteq> snd ` set outer \<union> {r. n \<le> r}"
  using assms
  by (auto simp: setdefault_st_def new_dict_def unchanged_below_def split: option.splits)

lemma add_node_st_frame:
  assumes "owned n s c"
  shows "owned n (add_node_st s c node) c" and "unchanged_below n s (add_node_st s c node)"
proof -
  obtain out inc where g: "graphs s c = (out, inc)" by (cases "graphs s c")
  obtain out' s1 where 1: "setdefault_st s out node = (out', s1)"
    by (cases "setdefault_st s out node")
  obtain inc' s2 where 2: "setdefault_st s1 inc node = (inc', s2)"
    by (cases "setdefault_st s1 inc node")
  from assms have n: "n \<le> c" "n \<le> next_ref s" and r: "\<forall>r \<in> refs s c. n \<le> r"
    by (simp_all add: owned_def)
  note f1 = setdefault_st_frame [OF 1 n(2)]
  from f1(3) n(2) have n1: "n \<le> next_ref s1" by simp
  note f2 = setdefault_st_frame [OF 2 n1]
  have res: "add_node_st s c node = s2\<lparr>graphs := (graphs s2)(c := (out', inc'))\<rparr>"
    by (simp add: add_node_st_def g 1 2)
  from f1(1) f2(1) have u: "unchanged_below n s s2" by (rule unchanged_below_trans)
  with n(1) show "unchanged_below n s (add_node_st s c node)"
    by (simp add: res unchanged_below_def)
  from r have "\<forall>r \<in> snd ` set out \<union> snd ` set inc. n \<le> r" by (simp add: refs_def g)
  with f1(4) f2(4) have "\<forall>r \<in> snd ` set out' \<union> snd ` set inc'. n \<le> r"
    by blast
  with n f1(3) f2(3) show "owned n (add_node_st s c node) c"
    by (simp add: res owned_def refs_def)
qed

lemma update_dict_st_frame:
  assumes "n \<le> r"
  shows "unchanged_below n s (update_dict_st s r other)"
    and "graphs (update_dict_st s r other) = graphs s"
    and "next_ref (update_dict_st s r other) = next_ref s"
  using assms by (simp_all add: update_dict_st_def unchanged_below_def)

lemma owned_cong:
  "owned n s c \<Longrightarrow> graphs s' = graphs s \<Longrightarrow> next_ref s' = next_ref s \<Longrightarrow> owned n s' c"
  by (simp add: owned_def refs_def)

lemma owned_ref_out: "owned n s c \<Longrightarrow> map_of (fst (graphs s c)) k = Some r \<Longrightarrow> n \<le> r"
  by (force simp: owned_def refs_def dest: map_of_SomeD)

lemma owned_ref_in: "owned n s c \<Longrightarrow> map_of (snd (graphs s c)) k = Some r \<Longrightarrow> n \<le> r"
  by (force simp: owned_def refs_def dest: map_of_SomeD)

lemma update_from_st_frame:
  "owned n s c \<Longrightarrow> update_from_st s c other ns = (r, s') \<Longrightarrow>
   owned n s' c \<and> unchanged_below n s s'"
proof (induction ns arbitrary: s)
  case Nil
  then show ?case by (simp add: unchanged_below_refl)
next
  case (Cons node ns)
  define s1 where "s1 = add_node_st s c node"
  note o1 = add_node_st_frame(1) [OF Cons.prems(1), of node, folded s1_def]
    and u1 = add_node_st_frame(2) [OF Cons.prems(1), of node, folded s1_def]
  show ?case
  proof (cases "map_of (fst (graphs s1 c)) node")
    case None
    with Cons.prems(2) o1 u1 show ?thesis by (simp add: s1_def [symmetric] Let_def)
  next
    case so: (Some so)
    show ?thesis
    proof (cases "map_of (fst (graphs s1 other)) node")
      case None
      with Cons.prems(2) so o1 u1 show ?thesis by (simp add: s1_def [symmetric] Let_def)
    next
      case oo: (Some oo)
      define s2 where "s2 = update_dict_st s1 so oo"
      note f2 = update_dict_st_frame [OF owned_ref_out [OF o1 so], of s1 oo, folded s2_def]
      have o2: "owned n s2 c" using o1 f2(2,3) by (rule owned_cong)
      have u2: "unchanged_below n s s2" using u1 f2(1) by (rule unchanged_below_trans)
      show ?thesis
      proof (cases "map_of (snd (graphs s2 c)) node")
        case None
        with Cons.prems(2) so oo o2 u2 show ?thesis
          by (simp add: s1_def [symmetric] s2_def [symmetric] Let_def)
      next
        case si: (Some si)
        show ?thesis
        proof (cases "map_of (snd (graphs s2 other)) node")
          case None
          with Cons.prems(2) so oo si o2 u2 show ?thesis
            by (simp add: s1_def [symmetric] s2_def [symmetric] Let_def)
        next
          case oi: (Some oi)
          define s3 where "s3 = update_dict_st s2 si oi"
          note f3 = update_dict_st_frame [OF owned_ref_in [OF o2 si], of s2 oi, folded s3_def]
          have o3: "owned n s3 c" using o2 f3(2,3) by (rule owned_cong)
          have u3: "unchanged_below n s s3" using u2 f3(1) by (rule unchanged_below_trans)
          from Cons.prems(2) so oo si oi have "update_from_st s3 c other ns = (r, s')"
            by (simp add: s1_def [symmetric] s2_def [symmetric] s3_def [symmetric] Let_def)
          from Cons.IH [OF o3 this] u3 show ?thesis by (auto intro: unchanged_below_trans)
        qed
      qed
    qed
  qed
qed

lemma copy_st_frame:
  assumes "copy_st s g = (r, s')"
  shows "unchanged_below (next_ref s) s s'" and "\<And>c. r = Inr c \<Longrightarrow> owned (next_ref s) s' c"
proof -
  define s1 where "s1 = s\<lparr>graphs := (graphs s)(next_ref s := ([], [])), next_ref := Suc (next_ref s)\<rparr>"
  have o1: "owned (next_ref s) s1 (next_ref s)" by (simp add: owned_def refs_def s1_def)
  have u1: "unchanged_below (next_ref s) s s1" by (simp add: unchanged_below_def s1_def)
  obtain e s2 where up: "update_st s1 (next_ref s) g = (e, s2)"
    by (cases "update_st s1 (next_ref s) g")
  from update_from_st_frame [OF o1 up [unfolded update_st_def]]
  have o2: "owned (next_ref s) s2 (next_ref s)" and u2: "unchanged_below (next_ref s) s1 s2"
    by simp_all
  from assms up have s': "s' = s2" and r: "r = (case e of Some e \<Rightarrow> Inl e | None \<Rightarrow> Inr (next_ref s))"
    by (auto simp: copy_st_def Graph_st_def s1_def [symmetric] split: option.splits)
  from u1 u2 show "unchanged_below (next_ref s) s s'" unfolding s' by (rule unchanged_below_trans)
  show "owned (next_ref s) s' c" if "r = Inr c" for c
    using that r o2 s' by (auto split: option.splits)
qed

lemma discard_st_frame:
  "(\<forall>r \<in> snd ` set idx. n \<le> r) \<Longrightarrow> discard_st s idx node ks = (e, s') \<Longrightarrow>
   unchanged_below n s s' \<and> graphs s' = graphs s \<and> next_ref s' = next_ref s"
proof (induction ks arbitrary: s)
  case Nil
  then show ?case by (simp add: unchanged_below_refl)
next
  case (Cons k ks)
  show ?case
  proof (cases "map_of idx k")
    case None
    with Cons.prems show ?thesis by (simp add: unchanged_below_refl)
  next
    case (Some r)
    then have "n \<le> r" using Cons.prems(1) by (force dest: map_of_SomeD)
    then have 1: "unchanged_below n s (pop_st s r node)" "graphs (pop_st s r node) = graphs s"
      "next_ref (pop_st s r node) = next_ref s"
      by (simp_all add: pop_st_def unchanged_below_def)
    from Cons.prems(2) Some have "discard_st (pop_st s r node) idx node ks = (e, s')" by simp
    from Cons.IH [OF Cons.prems(1) this] 1 show ?thesis
      by (auto intro: unchanged_below_trans)
  qed
qed

lemma remove_node_st_frame:
  assumes "owned n s c" "remove_node_st s c node = (e, s')"
  shows "owned n s' c \<and> unchanged_below n s s'"
proof -
  obtain out inc where g: "graphs s c = (out, inc)" by (cases "graphs s c")
  from assms(1) g have n: "n \<le> c" "n \<le> next_ref s"
    and ro: "\<forall>r \<in> snd ` set out. n \<le> r" and ri: "\<forall>r \<in> snd ` set inc. n \<le> r"
    by (auto simp: owned_def refs_def)
  show ?thesis
  proof (cases "map_of out node")
    case None
    with assms g show ?thesis by (simp add: remove_node_st_def unchanged_below_refl)
  next
    case o: (Some r_out)
    show ?thesis
    proof (cases "map_of inc node")
      case None
      with assms g o show ?thesis by (simp add: remove_node_st_def unchanged_below_refl)
    next
      case i: (Some r_in)
      obtain e1 s1 where d1: "discard_st s inc node (view s r_out) = (e1, s1)"
        by (cases "discard_st s inc node (view s r_out)")
      note f1 = discard_st_frame [OF ri d1]
      obtain e2 s2 where d2: "discard_st s1 out node (view s r_in) = (e2, s2)"
        by (cases "discard_st s1 out node (view s r_in)")
      note f2 = discard_st_frame [OF ro d2]
      from f1 f2 have u2: "unchanged_below n s s2" and g2: "graphs s2 = graphs s"
        and n2: "next_ref s2 = next_ref s" by (auto intro: unchanged_below_trans)
      have o1: "owned n s1 c" using assms(1) f1 by (auto intro: owned_cong)
      have o2: "owned n s2 c" using assms(1) g2 n2 by (rule owned_cong)
      have sub: "snd ` set (AList.delete node d) \<subseteq> snd ` set d" for d :: "('a, ref) dict"
        using set_delete_subset [of node d] by auto
      have upd: "owned n (s2\<lparr>graphs := (graphs s2)(c := (out', inc'))\<rparr>) c \<and>
          unchanged_below n s (s2\<lparr>graphs := (graphs s2)(c := (out', inc'))\<rparr>)"
        if "snd ` set out' \<subseteq> snd ` set out" "snd ` set inc' \<subseteq> snd ` set inc" for out' inc'
      proof -
        from that ro ri have "\<forall>r \<in> snd ` set out' \<union> snd ` set inc'. n \<le> r" by blast
        then show ?thesis using n n2 u2 by (simp add: owned_def refs_def unchanged_below_def)
      qed
      from assms(2) g o i d1 d2 show ?thesis
        using f1 o1 o2 u2 upd [OF sub sub] upd [OF sub subset_refl]
        by (auto simp: remove_node_st_def Let_def pop_def split: option.splits)
    qed
  qed
qed

lemma sort_loop_st_frame:
  "owned n s c \<Longrightarrow> sort_loop_st key c s pending result = (r, s') \<Longrightarrow> unchanged_below n s s'"
proof (induction key c s pending result rule: sort_loop_st.induct)
  case (1 key c s pending result)
  show ?case
  proof (cases "pending = []")
    case True
    with "1.prems"(2) show ?thesis
      by (subst (asm) sort_loop_st.simps) (simp add: unchanged_below_refl)
  next
    case False
    define node where "node = last (sort_key key pending)"
    show ?thesis
    proof (cases "successors_st s c node")
      case (Inl e)
      with "1.prems"(2) False show ?thesis
        by (subst (asm) sort_loop_st.simps) (simp add: Let_def node_def unchanged_below_refl)
    next
      case (Inr deps)
      obtain e s1 where rm: "remove_node_st s c node = (e, s1)"
        by (cases "remove_node_st s c node")
      from remove_node_st_frame [OF "1.prems"(1) rm]
      have o1: "owned n s1 c" and u1: "unchanged_below n s s1" by simp_all
      show ?thesis
      proof (cases e)
        case (Some err)
        with "1.prems"(2) False Inr rm u1 show ?thesis
          by (subst (asm) sort_loop_st.simps) (simp add: Let_def node_def)
      next
        case None
        show ?thesis
        proof (cases "enqueue_st s1 c (view s1 deps) (butlast (sort_key key pending))")
          case (Inl err)
          with "1.prems"(2) False Inr rm None u1 show ?thesis
            by (subst (asm) sort_loop_st.simps) (simp add: Let_def node_def)
        next
          case p: (Inr pending')
          from "1.prems"(2) False Inr rm None p
          have run: "sort_loop_st key c s1 pending' (result @ [node]) = (r, s')"
            by (subst (asm) sort_loop_st.simps) (simp add: Let_def node_def)
          have "unchanged_below n s1 s'"
          proof (rule "1.IH" [of "sort_key key pending" node deps None s1 pending'])
            show "pending \<noteq> []" by (rule False)
            show "sort_key key pending = sort_key key pending" by (rule refl)
            show "node = last (sort_key key pending)" by (rule node_def)
            show "successors_st s c node = Inr deps" by (rule Inr)
            show "(None, s1) = remove_node_st s c node" by (simp add: rm None)
            show "None = None" by (rule refl)
            show "enqueue_st s1 c (view s1 deps) (butlast (sort_key key pending)) = Inr pending'"
              by (rule p)
            show "owned n s1 c" by (rule o1)
            show "sort_loop_st key c s1 pending' (result @ [node]) = (r, s')" by (rule run)
          qed
          with u1 show ?thesis by (rule unchanged_below_trans)
        qed
      qed
    qed
  qed
qed

lemma topological_sort_st_frame:
  assumes "topological_sort_st mk target graph s = (r, s')"
  shows "unchanged_below (next_ref s) s s'"
proof (cases "arguments_st s target graph")
  case (Inl e)
  with assms show ?thesis by (simp add: topological_sort_st_def unchanged_below_refl)
next
  case (Inr p)
  obtain g ns where p: "p = (g, ns)" by (cases p)
  obtain c s1 where cp: "copy_st s g = (c, s1)" by (cases "copy_st s g")
  note u1 = copy_st_frame(1) [OF cp]
  show ?thesis
  proof (cases c)
    case (Inl e)
    with assms Inr p cp u1 show ?thesis by (simp add: topological_sort_st_def)
  next
    case c: (Inr remaining)
    note o1 = copy_st_frame(2) [OF cp c]
    show ?thesis
    proof (cases "ready_st s1 g (nodes_st s1 g)")
      case (Inl e)
      with assms Inr p cp c u1 show ?thesis by (simp add: topological_sort_st_def)
    next
      case rd: (Inr pending)
      obtain x s2 where lp: "sort_loop_st (mk ns) remaining s1 pending [] = (x, s2)"
        by (cases "sort_loop_st (mk ns) remaining s1 pending []")
      from u1 sort_loop_st_frame [OF o1 lp] have u2: "unchanged_below (next_ref s) s s2"
        by (rule unchanged_below_trans)
      from assms Inr p cp c rd lp have "s' = s2"
        by (auto simp: topological_sort_st_def split: sum.splits if_splits)
      with u2 show ?thesis by simp
    qed
  qed
qed

lemma graph_value_unchanged:
  assumes "unchanged_below (next_ref s) s s'" "allocated s g"
  shows "graph_value s' g = graph_value s g"
proof -
  from assms have g: "graphs s' g = graphs s g"
    and d: "\<forall>r \<in> refs s g. dicts s' r = dicts s r"
    by (auto simp: unchanged_below_def allocated_def)
  have eq: "map (\<lambda>(n, r). (n, dicts s' r)) idx = map (\<lambda>(n, r). (n, dicts s r)) idx"
    if "snd ` set idx \<subseteq> refs s g" for idx :: "('a, ref) dict"
  proof (rule map_cong [OF refl])
    fix p assume "p \<in> set idx"
    with that have "snd p \<in> refs s g" by blast
    with d show "(case p of (n, r) \<Rightarrow> (n, dicts s' r)) = (case p of (n, r) \<Rightarrow> (n, dicts s r))"
      by (cases p) simp
  qed
  have "snd ` set (fst (graphs s g)) \<subseteq> refs s g" "snd ` set (snd (graphs s g)) \<subseteq> refs s g"
    by (simp_all add: refs_def)
  then show ?thesis by (simp add: graph_value_def g eq)
qed

section \<open>The sort on the store returns what the sort on values returns\<close>

text \<open>
  Reading a graph object as a value commutes with the methods, as long as the object
  written to shares no inner dictionary between two of its entries. \<^verbatim>\<open>copy\<close> builds such
  an object, since each \<^verbatim>\<open>add_node\<close> stores new dictionaries, and the sort writes to
  the copy only.
\<close>

lemma graph_value_index:
  "graph_value s g =
     \<lparr>out_edges = index_value (dicts s) (fst (graphs s g)),
      in_edges = index_value (dicts s) (snd (graphs s g))\<rparr>"
  by (simp add: graph_value_def index_value_def)

lemma out_edges_value: "out_edges (graph_value s g) = index_value (dicts s) (fst (graphs s g))"
  by (simp add: graph_value_index)

lemma in_edges_value: "in_edges (graph_value s g) = index_value (dicts s) (snd (graphs s g))"
  by (simp add: graph_value_index)

lemma map_of_index_value: "map_of (index_value D idx) k = map_option D (map_of idx k)"
  by (induction idx) (auto simp: index_value_def)

lemma fst_index_value: "map fst (index_value D idx) = map fst idx"
  by (induction idx) (auto simp: index_value_def)

lemma index_value_cong:
  "(\<forall>r \<in> snd ` set idx. D' r = D r) \<Longrightarrow> index_value D' idx = index_value D idx"
  by (induction idx) (auto simp: index_value_def)

lemma index_value_append:
  "index_value D (idx @ idx') = index_value D idx @ index_value D idx'"
  by (simp add: index_value_def)

lemma index_value_delete: "index_value D (AList.delete k idx) = AList.delete k (index_value D idx)"
  by (induction idx) (auto simp: index_value_def)

lemma index_value_upd:
  "distinct (map snd idx) \<Longrightarrow> map_of idx k = Some r \<Longrightarrow>
   index_value (D(r := v)) idx = AList.update k v (index_value D idx)"
proof (induction idx)
  case Nil
  then show ?case by simp
next
  case (Cons p idx)
  obtain a ra where p: "p = (a, ra)" by (cases p)
  show ?case
  proof (cases "a = k")
    case True
    with Cons.prems p have r: "ra = r" and nin: "r \<notin> snd ` set idx" by auto
    from nin have "index_value (D(r := v)) idx = index_value D idx"
      by (intro index_value_cong) auto
    with True r p show ?thesis by (simp add: index_value_def)
  next
    case False
    with Cons.prems p have m: "map_of idx k = Some r" and d: "distinct (map snd idx)"
      and nin: "ra \<notin> snd ` set idx" by auto
    from m have "r \<in> snd ` set idx" by (force dest: map_of_SomeD)
    with nin have "ra \<noteq> r" by auto
    with Cons.IH [OF d m] False p show ?thesis by (simp add: index_value_def)
  qed
qed

lemma successors_value:
  "successors (graph_value s g) n =
     (case successors_st s g n of Inl e \<Rightarrow> Inl e | Inr r \<Rightarrow> Inr (view s r))"
  by (simp add: successors_def successors_st_def out_edges_value map_of_index_value view_def
      split: option.splits)

lemma predecessors_value:
  "predecessors (graph_value s g) n =
     (case predecessors_st s g n of Inl e \<Rightarrow> Inl e | Inr r \<Rightarrow> Inr (view s r))"
  by (simp add: predecessors_def predecessors_st_def in_edges_value map_of_index_value view_def
      split: option.splits)

lemma nodes_value: "nodes (graph_value s g) = nodes_st s g"
  by (simp add: nodes_def nodes_st_def out_edges_value fst_index_value)

lemma ready_value: "ready (graph_value s g) ns = ready_st s g ns"
  by (induction ns) (auto simp: predecessors_value split: sum.splits)

lemma enqueue_value: "enqueue (graph_value s g) ds pending = enqueue_st s g ds pending"
  by (induction ds arbitrary: pending) (auto simp: predecessors_value split: sum.splits)

lemma sorted_from_value: "sorted_from (graph_value s g) ns visited = sorted_from_st s g ns visited"
  by (induction ns arbitrary: visited) (auto simp: successors_value split: sum.splits)

lemma setdefault_st_value:
  assumes "setdefault_st s outer node = (outer', s')" and "\<forall>r \<in> snd ` set outer. r < next_ref s"
  shows "index_value (dicts s') outer' = setdefault node [] (index_value (dicts s) outer)"
    and "\<forall>r < next_ref s. dicts s' r = dicts s r"
    and "next_ref s \<le> next_ref s'"
    and "\<forall>r \<in> snd ` set outer'. r < next_ref s'"
    and "distinct (map snd outer) \<Longrightarrow> distinct (map snd outer')"
    and "snd ` set outer' \<subseteq> snd ` set outer \<union> {next_ref s}"
    and "graphs s' = graphs s"
proof -
  show "index_value (dicts s') outer' = setdefault node [] (index_value (dicts s) outer)"
  proof (cases "map_of outer node")
    case None
    from assms(2) have c: "index_value ((dicts s)(next_ref s := [])) outer = index_value (dicts s) outer"
      by (intro index_value_cong) auto
    from None assms(1) have o: "outer' = outer @ [(node, next_ref s)]"
      and d: "dicts s' = (dicts s)(next_ref s := [])"
      by (auto simp: setdefault_st_def new_dict_def)
    have "index_value ((dicts s)(next_ref s := [])) [(node, next_ref s)] = [(node, [])]"
      by (simp add: index_value_def)
    with c None show ?thesis
      by (simp add: o d setdefault_def map_of_index_value index_value_append)
  next
    case (Some r)
    with assms(1) show ?thesis
      by (simp add: setdefault_st_def setdefault_def map_of_index_value)
  qed
  show "\<forall>r < next_ref s. dicts s' r = dicts s r"
    using assms(1) by (auto simp: setdefault_st_def new_dict_def split: option.splits)
  show "next_ref s \<le> next_ref s'"
    using assms(1) by (auto simp: setdefault_st_def new_dict_def split: option.splits)
  show "\<forall>r \<in> snd ` set outer'. r < next_ref s'"
    using assms by (force simp: setdefault_st_def new_dict_def less_Suc_eq split: option.splits)
  show "distinct (map snd outer')" if "distinct (map snd outer)"
    using assms that by (force simp: setdefault_st_def new_dict_def split: option.splits)
  show "snd ` set outer' \<subseteq> snd ` set outer \<union> {next_ref s}"
    using assms(1) by (auto simp: setdefault_st_def new_dict_def split: option.splits)
  show "graphs s' = graphs s"
    using assms(1) by (auto simp: setdefault_st_def new_dict_def split: option.splits)
qed

lemma add_node_value:
  assumes "unshared s c"
  shows "graph_value (add_node_st s c node) c = add_node (graph_value s c) node"
    and "unshared (add_node_st s c node) c"
proof -
  obtain out inc where g: "graphs s c = (out, inc)" by (cases "graphs s c")
  obtain out' s1 where 1: "setdefault_st s out node = (out', s1)"
    by (cases "setdefault_st s out node")
  obtain inc' s2 where 2: "setdefault_st s1 inc node = (inc', s2)"
    by (cases "setdefault_st s1 inc node")
  from assms g have d: "distinct (map snd out)" "distinct (map snd inc)"
    and disj: "snd ` set out \<inter> snd ` set inc = {}"
    and ro: "\<forall>r \<in> snd ` set out. r < next_ref s" and ri: "\<forall>r \<in> snd ` set inc. r < next_ref s"
    by (auto simp: unshared_def refs_def)
  note f1 = setdefault_st_value [OF 1 ro]
  from ri f1(3) have ri1: "\<forall>r \<in> snd ` set inc. r < next_ref s1" by auto
  note f2 = setdefault_st_value [OF 2 ri1]
  have res: "add_node_st s c node = s2\<lparr>graphs := (graphs s2)(c := (out', inc'))\<rparr>"
    by (simp add: add_node_st_def g 1 2)
  from f2(2) f1(4) have "index_value (dicts s2) out' = index_value (dicts s1) out'"
    by (intro index_value_cong) auto
  with f1(1) have o: "index_value (dicts s2) out' = setdefault node [] (index_value (dicts s) out)"
    by simp
  from f1(2) ri have "index_value (dicts s1) inc = index_value (dicts s) inc"
    by (intro index_value_cong) auto
  with f2(1) have i: "index_value (dicts s2) inc' = setdefault node [] (index_value (dicts s) inc)"
    by simp
  from o i show "graph_value (add_node_st s c node) c = add_node (graph_value s c) node"
    by (simp add: res graph_value_index add_node_def g)
  from f1(4) f2(3) have ro': "\<forall>r \<in> snd ` set out'. r < next_ref s2" by auto
  have "snd ` set out' \<inter> snd ` set inc' = {}"
  proof (rule ccontr)
    assume "snd ` set out' \<inter> snd ` set inc' \<noteq> {}"
    then obtain x where xo: "x \<in> snd ` set out'" and xi: "x \<in> snd ` set inc'" by auto
    from xo f1(4) have lt: "x < next_ref s1" by auto
    with xi f2(6) have xinc: "x \<in> snd ` set inc" by auto
    with ri have "x < next_ref s" by auto
    with xo f1(6) have "x \<in> snd ` set out" by auto
    with xinc disj show False by auto
  qed
  with f1(5) [OF d(1)] f2(5) [OF d(2)] ro' f2(4)
  show "unshared (add_node_st s c node) c"
    by (auto simp: unshared_def refs_def res)
qed

lemma unshared_write_out:
  assumes "unshared s c" "map_of (fst (graphs s c)) k = Some r"
    and "graphs s' = graphs s" "dicts s' = (dicts s)(r := v)" "next_ref s' = next_ref s"
  shows "graph_value s' c =
           (graph_value s c)\<lparr>out_edges := AList.update k v (out_edges (graph_value s c))\<rparr>"
    and "unshared s' c"
proof -
  from assms(1) have d: "distinct (map snd (fst (graphs s c)))"
    and disj: "snd ` set (fst (graphs s c)) \<inter> snd ` set (snd (graphs s c)) = {}"
    by (auto simp: unshared_def)
  from assms(2) have "r \<in> snd ` set (fst (graphs s c))" by (force dest: map_of_SomeD)
  with disj have "r \<notin> snd ` set (snd (graphs s c))" by auto
  then have "index_value ((dicts s)(r := v)) (snd (graphs s c)) = index_value (dicts s) (snd (graphs s c))"
    by (intro index_value_cong) auto
  with index_value_upd [OF d assms(2), of "dicts s" v] assms(3,4)
  show "graph_value s' c =
           (graph_value s c)\<lparr>out_edges := AList.update k v (out_edges (graph_value s c))\<rparr>"
    by (simp add: graph_value_index)
  from assms(1,3,5) show "unshared s' c" by (simp add: unshared_def refs_def)
qed

lemma unshared_write_in:
  assumes "unshared s c" "map_of (snd (graphs s c)) k = Some r"
    and "graphs s' = graphs s" "dicts s' = (dicts s)(r := v)" "next_ref s' = next_ref s"
  shows "graph_value s' c =
           (graph_value s c)\<lparr>in_edges := AList.update k v (in_edges (graph_value s c))\<rparr>"
    and "unshared s' c"
proof -
  from assms(1) have d: "distinct (map snd (snd (graphs s c)))"
    and disj: "snd ` set (fst (graphs s c)) \<inter> snd ` set (snd (graphs s c)) = {}"
    by (auto simp: unshared_def)
  from assms(2) have "r \<in> snd ` set (snd (graphs s c))" by (force dest: map_of_SomeD)
  with disj have "r \<notin> snd ` set (fst (graphs s c))" by auto
  then have "index_value ((dicts s)(r := v)) (fst (graphs s c)) = index_value (dicts s) (fst (graphs s c))"
    by (intro index_value_cong) auto
  with index_value_upd [OF d assms(2), of "dicts s" v] assms(3,4)
  show "graph_value s' c =
           (graph_value s c)\<lparr>in_edges := AList.update k v (in_edges (graph_value s c))\<rparr>"
    by (simp add: graph_value_index)
  from assms(1,3,5) show "unshared s' c" by (simp add: unshared_def refs_def)
qed

lemma graph_value_below:
  assumes "unchanged_below n s s'" "g < n" "\<forall>r \<in> refs s g. r < n"
  shows "graph_value s' g = graph_value s g" and "graphs s' g = graphs s g"
    and "\<forall>r \<in> refs s' g. r < n" and "\<forall>r \<in> refs s g. dicts s' r = dicts s r"
proof -
  from assms show g: "graphs s' g = graphs s g" by (simp add: unchanged_below_def)
  from assms show d: "\<forall>r \<in> refs s g. dicts s' r = dicts s r"
    by (auto simp: unchanged_below_def)
  from g assms(3) show "\<forall>r \<in> refs s' g. r < n" by (simp add: refs_def)
  from d have "index_value (dicts s') (fst (graphs s g)) = index_value (dicts s) (fst (graphs s g))"
    and "index_value (dicts s') (snd (graphs s g)) = index_value (dicts s) (snd (graphs s g))"
    by (auto intro!: index_value_cong simp: refs_def)
  with g show "graph_value s' g = graph_value s g" by (simp add: graph_value_index)
qed

lemma update_from_value:
  "unshared s c \<Longrightarrow> owned n s c \<Longrightarrow> other < n \<Longrightarrow> (\<forall>r \<in> refs s other. r < n) \<Longrightarrow>
   update_from_st s c other ns = (r, s') \<Longrightarrow>
   unshared s' c \<and>
   (case r of
      None \<Rightarrow> update_from (graph_value s c) (graph_value s other) ns = Inr (graph_value s' c)
    | Some e \<Rightarrow>
        update_from (graph_value s c) (graph_value s other) ns = Inl (e, graph_value s' c))"
proof (induction ns arbitrary: s)
  case Nil
  then show ?case by simp
next
  case (Cons node ns)
  define s1 where "s1 = add_node_st s c node"
  note a = add_node_value [OF Cons.prems(1), of node, folded s1_def]
  note fa = add_node_st_frame [OF Cons.prems(2), of node, folded s1_def]
  note b1 = graph_value_below [OF fa(2) Cons.prems(3,4)]
  have p1: "add_node (graph_value s c) node = graph_value s1 c" using a(1) by simp
  have lo1: "map_of (out_edges (graph_value s1 c)) node
               = map_option (dicts s1) (map_of (fst (graphs s1 c)) node)"
    by (simp add: out_edges_value map_of_index_value)
  have lo2: "map_of (out_edges (graph_value s other)) node
               = map_option (dicts s1) (map_of (fst (graphs s1 other)) node)"
    using b1(1) by (simp add: out_edges_value [symmetric] map_of_index_value [symmetric])
  show ?case
  proof (cases "map_of (fst (graphs s1 c)) node")
    case None
    with Cons.prems(5) have "r = Some KeyError" "s' = s1" by (simp_all add: s1_def Let_def)
    with None a(2) p1 lo1 show ?thesis by (simp add: Let_def)
  next
    case so: (Some so)
    show ?thesis
    proof (cases "map_of (fst (graphs s1 other)) node")
      case None
      with so Cons.prems(5) have "r = Some KeyError" "s' = s1" by (simp_all add: s1_def Let_def)
      with None so a(2) p1 lo1 lo2 show ?thesis by (simp add: Let_def)
    next
      case oo: (Some oo)
      define s2 where "s2 = update_dict_st s1 so oo"
      have e2: "graphs s2 = graphs s1" "next_ref s2 = next_ref s1"
        "dicts s2 = (dicts s1)(so := dict_update (dicts s1 so) (dicts s1 oo))"
        by (simp_all add: s2_def update_dict_st_def)
      note w2 = unshared_write_out [OF a(2) so e2(1) e2(3) e2(2)]
      from owned_ref_out [OF fa(1) so] have "unchanged_below n s1 s2"
        unfolding s2_def by (rule update_dict_st_frame)
      with fa(2) have u2: "unchanged_below n s s2" by (rule unchanged_below_trans)
      from fa(1) e2 have o2: "owned n s2 c" by (intro owned_cong [of n s1 c s2]) simp_all
      note b2 = graph_value_below [OF u2 Cons.prems(3,4)]
      have p2: "(graph_value s1 c)\<lparr>out_edges :=
                   AList.update node (dict_update (dicts s1 so) (dicts s1 oo))
                     (out_edges (graph_value s1 c))\<rparr> = graph_value s2 c"
        using w2(1) by simp
      have li1: "map_of (in_edges (graph_value s2 c)) node
                   = map_option (dicts s2) (map_of (snd (graphs s2 c)) node)"
        by (simp add: in_edges_value map_of_index_value)
      have li2: "map_of (in_edges (graph_value s other)) node
                   = map_option (dicts s2) (map_of (snd (graphs s2 other)) node)"
        using b2(1) by (simp add: in_edges_value [symmetric] map_of_index_value [symmetric])
      show ?thesis
      proof (cases "map_of (snd (graphs s2 c)) node")
        case None
        with so oo Cons.prems(5) have "r = Some KeyError" "s' = s2"
          by (simp_all add: s1_def s2_def Let_def)
        with None so oo w2(2) p1 lo1 lo2 p2 li1 show ?thesis by (simp add: Let_def)
      next
        case si: (Some si)
        show ?thesis
        proof (cases "map_of (snd (graphs s2 other)) node")
          case None
          with so oo si Cons.prems(5) have "r = Some KeyError" "s' = s2"
            by (simp_all add: s1_def s2_def Let_def)
          with None so oo si w2(2) p1 lo1 lo2 p2 li1 li2 show ?thesis by (simp add: Let_def)
        next
          case oi: (Some oi)
          define s3 where "s3 = update_dict_st s2 si oi"
          have e3: "graphs s3 = graphs s2" "next_ref s3 = next_ref s2"
            "dicts s3 = (dicts s2)(si := dict_update (dicts s2 si) (dicts s2 oi))"
            by (simp_all add: s3_def update_dict_st_def)
          note w3 = unshared_write_in [OF w2(2) si e3(1) e3(3) e3(2)]
          from owned_ref_in [OF o2 si] have "unchanged_below n s2 s3"
            unfolding s3_def by (rule update_dict_st_frame)
          with u2 have u3: "unchanged_below n s s3" by (rule unchanged_below_trans)
          from o2 e3 have o3: "owned n s3 c" by (intro owned_cong [of n s2 c s3]) simp_all
          note b3 = graph_value_below [OF u3 Cons.prems(3,4)]
          have p3: "(graph_value s2 c)\<lparr>in_edges :=
                       AList.update node (dict_update (dicts s2 si) (dicts s2 oi))
                         (in_edges (graph_value s2 c))\<rparr> = graph_value s3 c"
            using w3(1) by simp
          from so oo si oi Cons.prems(5) have run: "update_from_st s3 c other ns = (r, s')"
            by (simp add: s1_def s2_def s3_def Let_def)
          from Cons.IH [OF w3(2) o3 Cons.prems(3) b3(3) run, unfolded b3(1)]
          have ih: "unshared s' c \<and>
            (case r of
               None \<Rightarrow> update_from (graph_value s3 c) (graph_value s other) ns = Inr (graph_value s' c)
             | Some e \<Rightarrow>
                 update_from (graph_value s3 c) (graph_value s other) ns = Inl (e, graph_value s' c))"
            by simp
          have step: "update_from (graph_value s c) (graph_value s other) (node # ns)
                  = update_from (graph_value s3 c) (graph_value s other) ns"
            using so oo si oi p1 lo1 lo2 p2 li1 li2 p3 by (simp add: Let_def)
          show ?thesis unfolding step by (rule ih)
        qed
      qed
    qed
  qed
qed

lemma copy_value:
  assumes "allocated s g" "copy_st s g = (r, s')"
  shows "case r of
           Inl e \<Rightarrow> copy (graph_value s g) = Inl e
         | Inr c \<Rightarrow> copy (graph_value s g) = Inr (graph_value s' c) \<and> unshared s' c"
proof -
  define s1 where "s1 = s\<lparr>graphs := (graphs s)(next_ref s := ([], [])), next_ref := Suc (next_ref s)\<rparr>"
  from assms(1) have lt: "g < next_ref s" and rf: "\<forall>r \<in> refs s g. r < next_ref s"
    by (simp_all add: allocated_def)
  have o1: "owned (next_ref s) s1 (next_ref s)" by (simp add: owned_def refs_def s1_def)
  have n1: "unshared s1 (next_ref s)" by (simp add: unshared_def refs_def s1_def)
  have u1: "unchanged_below (next_ref s) s s1" by (simp add: unchanged_below_def s1_def)
  note b1 = graph_value_below [OF u1 lt rf]
  have v1: "graph_value s1 (next_ref s) = Graph" by (simp add: graph_value_def Graph_def s1_def)
  obtain e s2 where up: "update_from_st s1 (next_ref s) g (nodes_st s1 g) = (e, s2)"
    by (cases "update_from_st s1 (next_ref s) g (nodes_st s1 g)")
  note uv = update_from_value [OF n1 o1 lt b1(3) up, unfolded v1 b1(1)]
  have ns: "nodes_st s1 g = nodes (graph_value s g)"
    using b1(1) nodes_value [of s1 g] by simp
  from assms(2) up have res: "(r, s') = (case e of Some x \<Rightarrow> (Inl x, s2) | None \<Rightarrow> (Inr (next_ref s), s2))"
    by (simp add: copy_st_def Graph_st_def update_st_def s1_def [symmetric] split: option.splits)
  show ?thesis
  proof (cases e)
    case None
    with res have "r = Inr (next_ref s)" "s' = s2" by simp_all
    with None uv ns show ?thesis by (simp add: copy_def update_def)
  next
    case (Some x)
    with res have "r = Inl x" "s' = s2" by simp_all
    with Some uv ns show ?thesis by (simp add: copy_def update_def)
  qed
qed

lemma discard_value:
  "distinct (map snd idx) \<Longrightarrow> discard_st s idx node ks = (r, s') \<Longrightarrow>
   (case r of
      None \<Rightarrow> discard node ks (index_value (dicts s) idx) = Inr (index_value (dicts s') idx)
    | Some e \<Rightarrow> discard node ks (index_value (dicts s) idx) = Inl (e, index_value (dicts s') idx))
   \<and> (\<forall>x. x \<notin> snd ` set idx \<longrightarrow> dicts s' x = dicts s x)
   \<and> graphs s' = graphs s \<and> next_ref s' = next_ref s"
proof (induction ks arbitrary: s)
  case Nil
  then show ?case by simp
next
  case (Cons k ks)
  show ?case
  proof (cases "map_of idx k")
    case None
    with Cons.prems(2) have "r = Some KeyError" "s' = s" by simp_all
    with None show ?thesis by (simp add: map_of_index_value)
  next
    case (Some r0)
    define s1 where "s1 = pop_st s r0 node"
    have e1: "graphs s1 = graphs s" "next_ref s1 = next_ref s"
      "dicts s1 = (dicts s)(r0 := AList.delete node (dicts s r0))"
      by (simp_all add: s1_def pop_st_def)
    from Some Cons.prems(2) have run: "discard_st s1 idx node ks = (r, s')"
      by (simp add: s1_def)
    note ih = Cons.IH [OF Cons.prems(1) run]
    from Some have "r0 \<in> snd ` set idx" by (force dest: map_of_SomeD)
    with ih e1 have f: "(\<forall>x. x \<notin> snd ` set idx \<longrightarrow> dicts s' x = dicts s x)
        \<and> graphs s' = graphs s \<and> next_ref s' = next_ref s"
      by auto
    have step: "discard node (k # ks) (index_value (dicts s) idx)
                  = discard node ks (index_value (dicts s1) idx)"
      using Some index_value_upd [OF Cons.prems(1) Some, of "dicts s" "AList.delete node (dicts s r0)"]
      by (simp add: map_of_index_value e1)
    from ih have "case r of
        None \<Rightarrow> discard node ks (index_value (dicts s1) idx) = Inr (index_value (dicts s') idx)
      | Some e \<Rightarrow> discard node ks (index_value (dicts s1) idx) = Inl (e, index_value (dicts s') idx)"
      by simp
    then have "case r of
        None \<Rightarrow> discard node (k # ks) (index_value (dicts s) idx) = Inr (index_value (dicts s') idx)
      | Some e \<Rightarrow> discard node (k # ks) (index_value (dicts s) idx) = Inl (e, index_value (dicts s') idx)"
      unfolding step .
    with f show ?thesis by simp
  qed
qed

lemma distinct_snd_key:
  "distinct (map snd idx) \<Longrightarrow> map_of idx a = Some r \<Longrightarrow> map_of idx b = Some r \<Longrightarrow> a = b"
proof -
  assume d: "distinct (map snd idx)" and a: "map_of idx a = Some r" and b: "map_of idx b = Some r"
  from d have "inj_on snd (set idx)" by (simp add: distinct_map)
  moreover from a b have "(a, r) \<in> set idx" "(b, r) \<in> set idx" by (auto dest: map_of_SomeD)
  ultimately have "(a, r) = (b, r)" by (intro inj_onD [of snd "set idx"]) simp_all
  then show "a = b" by simp
qed

lemma discard_st_at:
  "distinct (map snd idx) \<Longrightarrow> map_of idx k0 = Some r0 \<Longrightarrow> discard_st s idx node ks = (None, s') \<Longrightarrow>
   dicts s' r0 = (if k0 \<in> set ks then AList.delete node (dicts s r0) else dicts s r0)"
proof (induction ks arbitrary: s)
  case Nil
  then show ?case by simp
next
  case (Cons k ks)
  from Cons.prems(3) obtain rk where rk: "map_of idx k = Some rk"
    and run: "discard_st (pop_st s rk node) idx node ks = (None, s')"
    by (auto split: option.splits)
  note ih = Cons.IH [OF Cons.prems(1,2) run]
  show ?case
  proof (cases "k = k0")
    case True
    with rk Cons.prems(2) have "rk = r0" by simp
    with ih True show ?thesis by (simp add: pop_st_def AList.delete_idem)
  next
    case False
    with distinct_snd_key [OF Cons.prems(1) rk, of k0] Cons.prems(2) have "rk \<noteq> r0" by auto
    with ih False show ?thesis by (simp add: pop_st_def)
  qed
qed

lemma fst_delete: "map fst (AList.delete k d) = removeAll k (map fst d)"
  by (induction d) auto

lemma distinct_snd_delete: "distinct (map snd idx) \<Longrightarrow> distinct (map snd (AList.delete k idx))"
  by (simp add: AList.delete_eq distinct_map_filter)

lemma snd_delete_subset: "snd ` set (AList.delete k idx) \<subseteq> snd ` set idx"
  by (auto simp: AList.delete_eq)

lemma remove_node_value:
  assumes "unshared s c" "remove_node_st s c node = (r, s')"
  shows "unshared s' c"
    and "case r of
           None \<Rightarrow> remove_node (graph_value s c) node = Inr (graph_value s' c)
         | Some e \<Rightarrow> remove_node (graph_value s c) node = Inl (e, graph_value s' c)"
    and "r = None \<Longrightarrow> successors_st s c node = Inr ro \<Longrightarrow>
         view s' ro = view_after_remove (graph_value s c) node (view s ro)"
proof -
  obtain out inc where g: "graphs s c = (out, inc)" by (cases "graphs s c")
  from assms(1) g have d: "distinct (map snd out)" "distinct (map snd inc)"
    and disj: "snd ` set out \<inter> snd ` set inc = {}"
    and ro: "\<forall>r \<in> snd ` set out. r < next_ref s" and ri: "\<forall>r \<in> snd ` set inc. r < next_ref s"
    by (auto simp: unshared_def refs_def)
  have gv: "graph_value s c = \<lparr>out_edges = index_value (dicts s) out, in_edges = index_value (dicts s) inc\<rparr>"
    by (simp add: graph_value_index g)
  have all: "unshared s' c \<and>
    (case r of
       None \<Rightarrow> remove_node (graph_value s c) node = Inr (graph_value s' c)
     | Some e \<Rightarrow> remove_node (graph_value s c) node = Inl (e, graph_value s' c)) \<and>
    (r = None \<longrightarrow> successors_st s c node = Inr ro \<longrightarrow>
       view s' ro = view_after_remove (graph_value s c) node (view s ro))"
  proof (cases "map_of out node")
    case None
    with assms(2) g have "r = Some KeyError" "s' = s" by (simp_all add: remove_node_st_def)
    with None assms(1) show ?thesis by (simp add: remove_node_def gv map_of_index_value)
  next
    case o: (Some xo)
    show ?thesis
    proof (cases "map_of inc node")
      case None
      with o assms(2) g have "r = Some KeyError" "s' = s" by (simp_all add: remove_node_st_def)
      with None o assms(1) show ?thesis by (simp add: remove_node_def gv map_of_index_value)
    next
      case i: (Some xi)
      obtain e1 s1 where 1: "discard_st s inc node (view s xo) = (e1, s1)"
        by (cases "discard_st s inc node (view s xo)")
      note dv1 = discard_value [OF d(2) 1]
      from dv1 have fr1: "\<forall>x. x \<notin> snd ` set inc \<longrightarrow> dicts s1 x = dicts s x" by simp
      with disj have "\<forall>r \<in> snd ` set out. dicts s1 r = dicts s r" by blast
      then have ov1: "index_value (dicts s1) out = index_value (dicts s) out"
        by (rule index_value_cong)
      have gv1: "graph_value s1 c =
          \<lparr>out_edges = index_value (dicts s) out, in_edges = index_value (dicts s1) inc\<rparr>"
        using dv1 ov1 by (simp add: graph_value_index g)
      from assms(1) dv1 have u1: "unshared s1 c" by (simp add: unshared_def refs_def)
      show ?thesis
      proof (cases e1)
        case (Some e)
        with o i 1 assms(2) g have "r = Some e" "s' = s1"
          by (simp_all add: remove_node_st_def Let_def)
        moreover from Some dv1
        have "discard node (map fst (dicts s xo)) (index_value (dicts s) inc)
                = Inl (e, index_value (dicts s1) inc)"
          by (simp add: view_def)
        ultimately show ?thesis
          using o i u1 by (simp add: remove_node_def gv gv1 map_of_index_value)
      next
        case n1: None
        with dv1 have p1: "discard node (map fst (dicts s xo)) (index_value (dicts s) inc)
                = Inr (index_value (dicts s1) inc)"
          by (simp add: view_def)
        obtain e2 s2 where 2: "discard_st s1 out node (view s xi) = (e2, s2)"
          by (cases "discard_st s1 out node (view s xi)")
        note dv2 = discard_value [OF d(1) 2]
        from dv2 have fr2: "\<forall>x. x \<notin> snd ` set out \<longrightarrow> dicts s2 x = dicts s1 x" by simp
        with disj have "\<forall>r \<in> snd ` set inc. dicts s2 r = dicts s1 r" by blast
        then have iv2: "index_value (dicts s2) inc = index_value (dicts s1) inc"
          by (rule index_value_cong)
        have gv2: "graph_value s2 c =
            \<lparr>out_edges = index_value (dicts s2) out, in_edges = index_value (dicts s1) inc\<rparr>"
          using dv1 dv2 iv2 by (simp add: graph_value_index g)
        from u1 dv2 have u2: "unshared s2 c" by (simp add: unshared_def refs_def)
        show ?thesis
        proof (cases e2)
          case (Some e)
          with o i 1 n1 2 assms(2) g have "r = Some e" "s' = s2"
            by (simp_all add: remove_node_st_def Let_def)
          moreover from Some dv2 ov1
          have "discard node (map fst (dicts s xi)) (index_value (dicts s) out)
                  = Inl (e, index_value (dicts s2) out)"
            by (simp add: view_def)
          ultimately show ?thesis
            using o i u2 p1 by (simp add: remove_node_def gv gv2 map_of_index_value)
        next
          case n2: None
          with dv2 ov1 have p2: "discard node (map fst (dicts s xi)) (index_value (dicts s) out)
                  = Inr (index_value (dicts s2) out)"
            by (simp add: view_def)
          from o i 1 n1 2 n2 assms(2) g have r: "r = None"
            and s': "s' = s2\<lparr>graphs := (graphs s2)(c := (AList.delete node out, AList.delete node inc))\<rparr>"
            by (simp_all add: remove_node_st_def Let_def pop_def)
          have gv': "graph_value s' c =
              \<lparr>out_edges = AList.delete node (index_value (dicts s2) out),
               in_edges = AList.delete node (index_value (dicts s1) inc)\<rparr>"
            by (simp add: graph_value_index s' index_value_delete iv2)
          have val: "remove_node (graph_value s c) node = Inr (graph_value s' c)"
            using o i p1 p2 by (simp add: remove_node_def gv gv' map_of_index_value pop_def)
          have nr2: "next_ref s2 = next_ref s" using dv1 dv2 by simp
          have sub_o: "snd ` set (AList.delete node out) \<subseteq> snd ` set out"
            by (rule snd_delete_subset)
          have sub_i: "snd ` set (AList.delete node inc) \<subseteq> snd ` set inc"
            by (rule snd_delete_subset)
          from d(1) have a1: "distinct (map snd (AList.delete node out))"
            by (rule distinct_snd_delete)
          from d(2) have a2: "distinct (map snd (AList.delete node inc))"
            by (rule distinct_snd_delete)
          from sub_o sub_i disj
          have a3: "snd ` set (AList.delete node out) \<inter> snd ` set (AList.delete node inc) = {}"
            by blast
          from sub_o ro have a4: "\<forall>r \<in> snd ` set (AList.delete node out). r < next_ref s"
            by blast
          from sub_i ri have a5: "\<forall>r \<in> snd ` set (AList.delete node inc). r < next_ref s"
            by blast
          from a1 a2 a3 a4 a5 have un: "unshared s' c"
            by (simp add: unshared_def refs_def s' nr2 ball_Un)
          from o have "xo \<in> snd ` set out" by (force dest: map_of_SomeD)
          with disj have "xo \<notin> snd ` set inc" by auto
          with dv1 have k1: "dicts s1 xo = dicts s xo" by simp
          from n2 2 have run2: "discard_st s1 out node (view s xi) = (None, s2)" by simp
          from discard_st_at [OF d(1) o run2] k1
          have "dicts s' xo = (if node \<in> set (view s xi) then AList.delete node (dicts s xo)
                               else dicts s xo)"
            by (simp add: s')
          then have "view s' xo = view_after_remove (graph_value s c) node (view s xo)"
            using i by (simp add: view_def view_after_remove_def gv map_of_index_value keys_def
                fst_delete)
          with o g have "successors_st s c node = Inr ro \<longrightarrow>
              view s' ro = view_after_remove (graph_value s c) node (view s ro)"
            by (auto simp: successors_st_def)
          with val un r show ?thesis by simp
        qed
      qed
    qed
  qed
  from all show "unshared s' c" by simp
  from all show "case r of
           None \<Rightarrow> remove_node (graph_value s c) node = Inr (graph_value s' c)
         | Some e \<Rightarrow> remove_node (graph_value s c) node = Inl (e, graph_value s' c)" by simp
  from all show "r = None \<Longrightarrow> successors_st s c node = Inr ro \<Longrightarrow>
         view s' ro = view_after_remove (graph_value s c) node (view s ro)" by simp
qed

lemma sort_loop_value:
  "unshared s c \<Longrightarrow> sort_loop_st key c s pending result = (r, s') \<Longrightarrow>
   (case r of
      Inl e \<Rightarrow> sort_loop key (graph_value s c) pending result = Inl e
    | Inr res \<Rightarrow> sort_loop key (graph_value s c) pending result = Inr (graph_value s' c, res))"
proof (induction key c s pending result rule: sort_loop_st.induct)
  case (1 key c s pending result)
  show ?case
  proof (cases "pending = []")
    case True
    from "1.prems"(2) True have "r = Inr result" "s' = s"
      by (subst (asm) sort_loop_st.simps, simp)+
    with True show ?thesis by (subst sort_loop.simps) simp
  next
    case False
    define node where "node = last (sort_key key pending)"
    show ?thesis
    proof (cases "successors_st s c node")
      case (Inl e)
      with "1.prems"(2) False have "r = Inl e"
        by (subst (asm) sort_loop_st.simps) (auto simp: Let_def node_def)
      with Inl False show ?thesis
        by (subst sort_loop.simps) (simp add: Let_def node_def [symmetric] successors_value)
    next
      case (Inr deps)
      obtain e s1 where rm: "remove_node_st s c node = (e, s1)"
        by (cases "remove_node_st s c node")
      note rv = remove_node_value [OF "1.prems"(1) rm]
      have sv: "successors (graph_value s c) node = Inr (view s deps)"
        using Inr by (simp add: successors_value)
      show ?thesis
      proof (cases e)
        case (Some err)
        with "1.prems"(2) False Inr rm have "r = Inl err"
          by (subst (asm) sort_loop_st.simps) (auto simp: Let_def node_def)
        with Some rv(2) sv False show ?thesis
          by (subst sort_loop.simps) (simp add: Let_def node_def [symmetric])
      next
        case None
        with rv(2) have rp: "remove_node (graph_value s c) node = Inr (graph_value s1 c)" by simp
        from rv(3) [OF None Inr]
        have vw: "view_after_remove (graph_value s c) node (view s deps) = view s1 deps" by simp
        show ?thesis
        proof (cases "enqueue_st s1 c (view s1 deps) (butlast (sort_key key pending))")
          case (Inl err)
          with "1.prems"(2) False Inr rm None have "r = Inl err"
            by (subst (asm) sort_loop_st.simps) (auto simp: Let_def node_def)
          with Inl rp sv vw False show ?thesis
            by (subst sort_loop.simps) (simp add: Let_def node_def [symmetric] enqueue_value)
        next
          case p: (Inr pending')
          from "1.prems"(2) False Inr rm None p
          have run: "sort_loop_st key c s1 pending' (result @ [node]) = (r, s')"
            by (subst (asm) sort_loop_st.simps) (simp add: Let_def node_def)
          have ih: "case r of
              Inl e \<Rightarrow> sort_loop key (graph_value s1 c) pending' (result @ [node]) = Inl e
            | Inr res \<Rightarrow>
                sort_loop key (graph_value s1 c) pending' (result @ [node])
                  = Inr (graph_value s' c, res)"
          proof (rule "1.IH" [of "sort_key key pending" node deps None s1 pending'])
            show "pending \<noteq> []" by (rule False)
            show "sort_key key pending = sort_key key pending" by (rule refl)
            show "node = last (sort_key key pending)" by (rule node_def)
            show "successors_st s c node = Inr deps" by (rule Inr)
            show "(None, s1) = remove_node_st s c node" by (simp add: rm None)
            show "None = None" by (rule refl)
            show "enqueue_st s1 c (view s1 deps) (butlast (sort_key key pending)) = Inr pending'"
              by (rule p)
            show "unshared s1 c" by (rule rv(1))
            show "sort_loop_st key c s1 pending' (result @ [node]) = (r, s')" by (rule run)
          qed
          have step: "sort_loop key (graph_value s c) pending result
                        = sort_loop key (graph_value s1 c) pending' (result @ [node])"
            using p rp sv vw False
            by (subst sort_loop.simps) (simp add: Let_def node_def [symmetric] enqueue_value)
          show ?thesis unfolding step by (rule ih)
        qed
      qed
    qed
  qed
qed

lemma arguments_value:
  "arguments (target_value s target) (map_option (graph_value s) graph) =
     (case arguments_st s target graph of
        Inl e \<Rightarrow> Inl e
      | Inr (g, ns) \<Rightarrow> Inr (graph_value s g, ns))"
  by (simp add: arguments_def arguments_st_def target_value_def nodes_value
      split: option.splits target_st.splits)

lemma topological_sort_value:
  assumes "arguments_st s target graph = Inr (g, ns)" and "allocated s g"
  shows "fst (topological_sort_st mk target graph s)
           = topological_sort mk (target_value s target) (map_option (graph_value s) graph)"
proof -
  have av: "arguments (target_value s target) (map_option (graph_value s) graph)
              = Inr (graph_value s g, ns)"
    by (simp add: arguments_value assms(1))
  obtain rc s1 where cp: "copy_st s g = (rc, s1)" by (cases "copy_st s g")
  note cv = copy_value [OF assms(2) cp]
  note cf = copy_st_frame [OF cp]
  have gv1: "graph_value s1 g = graph_value s g"
    using cf(1) assms(2) by (rule graph_value_unchanged)
  show ?thesis
  proof (cases rc)
    case (Inl e)
    with cv have "copy (graph_value s g) = Inl e" by simp
    with Inl cp av assms(1) show ?thesis
      by (simp add: topological_sort_def topological_sort_st_def)
  next
    case c: (Inr c)
    with cv have cpv: "copy (graph_value s g) = Inr (graph_value s1 c)" and un: "unshared s1 c"
      by simp_all
    from cf(2) [OF c] have ow: "owned (next_ref s) s1 c" .
    have rd: "ready_st s1 g (nodes_st s1 g) = ready (graph_value s g) (nodes (graph_value s g))"
      using gv1 ready_value [of s1 g "nodes_st s1 g"] nodes_value [of s1 g] by simp
    show ?thesis
    proof (cases "ready (graph_value s g) (nodes (graph_value s g))")
      case (Inl e)
      with c cp av assms(1) cpv rd show ?thesis
        by (simp add: topological_sort_def topological_sort_st_def)
    next
      case p: (Inr pending)
      obtain rl s2 where sl: "sort_loop_st (mk ns) c s1 pending [] = (rl, s2)"
        by (cases "sort_loop_st (mk ns) c s1 pending []")
      note sv = sort_loop_value [OF un sl]
      from sort_loop_st_frame [OF ow sl] cf(1) have "unchanged_below (next_ref s) s s2"
        by (intro unchanged_below_trans [of _ s s1 s2])
      then have gv2: "graph_value s2 g = graph_value s g"
        using assms(2) by (rule graph_value_unchanged)
      show ?thesis
      proof (cases rl)
        case (Inl e)
        with sv have "sort_loop (mk ns) (graph_value s1 c) pending [] = Inl e" by simp
        with Inl c cp av assms(1) cpv rd p sl show ?thesis
          by (simp add: topological_sort_def topological_sort_st_def)
      next
        case (Inr result)
        with sv have "sort_loop (mk ns) (graph_value s1 c) pending [] = Inr (graph_value s2 c, result)"
          by simp
        moreover have "sorted_from_st s2 g (rev result) {} = sorted_from (graph_value s g) (rev result) {}"
          using gv2 sorted_from_value [of s2 g "rev result" "{}"] by simp
        moreover have "nodes_st s2 c = nodes (graph_value s2 c)" by (simp add: nodes_value)
        ultimately show ?thesis
          using Inr c cp av assms(1) cpv rd p sl
          by (simp add: topological_sort_def topological_sort_st_def is_topologically_sorted_def
              split: sum.splits)
      qed
    qed
  qed
qed

theorem sort_of_graph_object:
  assumes "allocated s g"
  shows "fst (topological_sort_st mk (GraphRef g) None s)
           = topological_sort mk (GraphTarget (graph_value s g)) None"
  using topological_sort_value [of s "GraphRef g" None g "nodes_st s g" mk] assms
  by (simp add: arguments_st_def target_value_def)

theorem sort_of_list_and_graph_object:
  assumes "allocated s g"
  shows "fst (topological_sort_st mk (ListValue ns) (Some g) s)
           = topological_sort mk (ListTarget ns) (Some (graph_value s g))"
  using topological_sort_value [of s "ListValue ns" "Some g" g ns mk] assms
  by (simp add: arguments_st_def target_value_def)

section \<open>The graph of the caller\<close>

lemma store_chain_value: "graph_value store_chain 0 = g_chain"
  by (simp add: graph_value_def store_chain_def g_chain_def)

lemma store_chain_allocated: "allocated store_chain 0"
  by (simp add: allocated_def refs_def store_chain_def)

lemma sort_store_chain:
  "fst (topological_sort_st position_key (GraphRef 0) None store_chain) = Inr [1, 2, 3, 4]"
  by code_simp

text \<open>
  C8. Whatever the call \<^verbatim>\<open>topological_sort\<close> does, whether it returns a list or raises,
  a graph that exists when it is called has the same nodes, edges and labels
  afterwards; this holds for the graph passed to it in particular. The call writes to
  the copy it makes and to nothing else.
\<close>

theorem caller_graph_unchanged:
  assumes "allocated s g" and "topological_sort_st mk target graph s = (r, s')"
  shows "graph_value s' g = graph_value s g"
  using topological_sort_st_frame [OF assms(2)] assms(1) by (rule graph_value_unchanged)

theorem caller_graph_unchanged_witness:
  "allocated store_chain 0 \<and>
   fst (topological_sort_st position_key (GraphRef 0) None store_chain) = Inr [1, 2, 3, 4] \<and>
   graph_value (snd (topological_sort_st position_key (GraphRef 0) None store_chain)) 0 = g_chain"
  using caller_graph_unchanged [OF store_chain_allocated prod.collapse [symmetric],
      of position_key "GraphRef 0" None] store_chain_allocated sort_store_chain store_chain_value
  by simp

end
